theory Spec2Isabelle
  imports Main
begin

section \<open>JavaScript primitives used by the IPv6 utilities\<close>

text \<open>
  A JavaScript string is modelled as a \<^typ>\<open>string\<close>: the list of its code units, for
  code units below 256. A JavaScript number is either \<open>NaN\<close> or an integer; the
  utilities only produce integers, and the integers are exact in JavaScript as long as
  they stay below \<open>2^53\<close>, which holds for every group of at most 13 hexadecimal digits
  and for every 16 character binary chunk.
\<close>

datatype jsnum = NaN | Finite int

datatype jserror = RangeError

text \<open>The white space and line terminator code units that \<open>trim\<close> and \<open>parseInt\<close> skip.\<close>

definition isWhiteSpace :: "char \<Rightarrow> bool" where
  "isWhiteSpace c =
     (c = CHR 0x09 \<or> c = CHR 0x0A \<or> c = CHR 0x0B \<or> c = CHR 0x0C \<or> c = CHR 0x0D \<or>
      c = CHR 0x20 \<or> c = CHR 0xA0)"

text \<open>\<open>String.prototype.trim\<close>.\<close>

definition trimStr :: "string \<Rightarrow> string" where
  "trimStr s = rev (dropWhile isWhiteSpace (rev (dropWhile isWhiteSpace s)))"

text \<open>\<open>s.startsWith(p)\<close>.\<close>

fun startsWith :: "string \<Rightarrow> string \<Rightarrow> bool" where
  "startsWith s [] = True"
| "startsWith [] (d # ds) = False"
| "startsWith (c # cs) (d # ds) = (c = d \<and> startsWith cs ds)"

text \<open>
  \<open>s.split(sep)\<close> for a string separator: the pieces between the matches of \<open>sep\<close>,
  found from the left without overlap. The empty string splits into one empty piece
  (into no piece when \<open>sep\<close> is empty, in which case every code unit is a piece).
\<close>

fun splitStr :: "string \<Rightarrow> string \<Rightarrow> string list" where
  "splitStr [] sep = (if sep = [] then [] else [[]])"
| "splitStr (c # cs) sep =
     (if sep = [] then [c] # splitStr cs sep
      else if startsWith (c # cs) sep then [] # splitStr (drop (length sep) (c # cs)) sep
      else (case splitStr cs sep of [] \<Rightarrow> [[c]] | p # ps \<Rightarrow> (c # p) # ps))"

text \<open>\<open>xs.join(sep)\<close> on an array of strings.\<close>

fun joinStr :: "string list \<Rightarrow> string \<Rightarrow> string" where
  "joinStr [] sep = []"
| "joinStr [x] sep = x"
| "joinStr (x # y # ys) sep = x @ sep @ joinStr (y # ys) sep"

text \<open>\<open>(s.match(/::/g) || []).length\<close>: the matches of \<open>::\<close> from the left, without overlap.\<close>

fun matchDoubleColon :: "string \<Rightarrow> nat" where
  "matchDoubleColon (a # b # cs) =
     (if a = CHR '':'' \<and> b = CHR '':'' then Suc (matchDoubleColon cs)
      else matchDoubleColon (b # cs))"
| "matchDoubleColon [a] = 0"
| "matchDoubleColon [] = 0"

text \<open>\<open>s.padStart(n, c)\<close> for a one character pad string.\<close>

definition padStart :: "string \<Rightarrow> nat \<Rightarrow> char \<Rightarrow> string" where
  "padStart s n c = replicate (n - length s) c @ s"

text \<open>\<open>s.repeat(n)\<close> throws a RangeError for a negative count.\<close>

definition repeatStr :: "string \<Rightarrow> int \<Rightarrow> jserror + string" where
  "repeatStr s n = (if n < 0 then Inl RangeError else Inr (concat (replicate (nat n) s)))"

text \<open>\<open>Array(n).fill(x)\<close> throws a RangeError for a negative length.\<close>

definition arrayFill :: "int \<Rightarrow> 'a \<Rightarrow> jserror + 'a list" where
  "arrayFill n x = (if n < 0 then Inl RangeError else Inr (replicate (nat n) x))"

text \<open>\<open>s.substring(0, e)\<close>: a negative end counts as 0, an end beyond the string as its length.\<close>

definition substring0 :: "string \<Rightarrow> int \<Rightarrow> string" where
  "substring0 s e = take (nat e) s"

text \<open>\<open>s.substr(i, n)\<close> for \<open>i\<close> and \<open>n\<close> that are not negative.\<close>

definition substr :: "string \<Rightarrow> nat \<Rightarrow> nat \<Rightarrow> string" where
  "substr s i n = take n (drop i s)"

text \<open>
  \<open>xs.slice(b, e)\<close> and \<open>xs.slice(b)\<close> (with \<open>e = None\<close>): a negative index counts from the
  end, and both indices are clamped to the array.
\<close>

definition sliceIndex :: "nat \<Rightarrow> int \<Rightarrow> nat" where
  "sliceIndex len i = (if i < 0 then nat (max (int len + i) 0) else min (nat i) len)"

definition slice :: "'a list \<Rightarrow> int \<Rightarrow> int option \<Rightarrow> 'a list" where
  "slice xs b e =
     (let k = sliceIndex (length xs) b;
          final = (case e of None \<Rightarrow> length xs | Some e' \<Rightarrow> sliceIndex (length xs) e')
      in take (final - k) (drop k xs))"

text \<open>The value of a digit character, for radices up to 36.\<close>

definition digitValue :: "char \<Rightarrow> nat option" where
  "digitValue c =
     (let n = (of_char c :: nat) in
      if 48 \<le> n \<and> n \<le> 57 then Some (n - 48)
      else if 97 \<le> n \<and> n \<le> 122 then Some (n - 87)
      else if 65 \<le> n \<and> n \<le> 90 then Some (n - 55)
      else None)"

definition isRadixDigit :: "nat \<Rightarrow> char \<Rightarrow> bool" where
  "isRadixDigit r c = (case digitValue c of None \<Rightarrow> False | Some v \<Rightarrow> v < r)"

definition digitsValue :: "nat \<Rightarrow> string \<Rightarrow> nat" where
  "digitsValue r z = foldl (\<lambda>acc c. acc * r + (case digitValue c of None \<Rightarrow> 0 | Some v \<Rightarrow> v)) 0 z"

text \<open>
  \<open>parseInt(s, radix)\<close>: skips leading white space, reads a sign, for radix 16 (and for
  radix 0, which then reads hexadecimal) skips a \<open>0x\<close> or \<open>0X\<close> prefix, and reads the
  longest run of digits of the radix; no digit gives \<open>NaN\<close>. Whatever follows the digits
  is ignored.
\<close>

definition parseInt :: "string \<Rightarrow> nat \<Rightarrow> jsnum" where
  "parseInt s radix =
     (let s0 = dropWhile isWhiteSpace s;
          neg = (s0 \<noteq> [] \<and> hd s0 = CHR ''-'');
          s1 = (if s0 \<noteq> [] \<and> (hd s0 = CHR ''+'' \<or> hd s0 = CHR ''-'') then tl s0 else s0);
          stripPrefix = (radix = 0 \<or> radix = 16);
          hasPrefix = (stripPrefix \<and> (startsWith s1 ''0x'' \<or> startsWith s1 ''0X''));
          r = (if hasPrefix then 16 else if radix = 0 then 10 else radix);
          s2 = (if hasPrefix then drop 2 s1 else s1);
          z = takeWhile (isRadixDigit r) s2
      in if radix \<noteq> 0 \<and> (radix < 2 \<or> 36 < radix) then NaN
         else if z = [] then NaN
         else Finite ((if neg then - 1 else 1) * int (digitsValue r z)))"

text \<open>The digit character of a value below 36, in lower case as \<open>toString\<close> prints it.\<close>

definition digitChar :: "nat \<Rightarrow> char" where
  "digitChar v = ''0123456789abcdefghijklmnopqrstuvwxyz'' ! v"

function natToString :: "nat \<Rightarrow> nat \<Rightarrow> string" where
  "natToString r n =
     (if r < 2 \<or> n < r then [digitChar n] else natToString r (n div r) @ [digitChar (n mod r)])"
  by pat_completeness auto
termination
  by (relation "measure (\<lambda>(r, n). n)") auto

declare natToString.simps [simp del]

text \<open>\<open>x.toString(radix)\<close> of a number that is \<open>NaN\<close> or an integer.\<close>

definition numToString :: "jsnum \<Rightarrow> nat \<Rightarrow> string" where
  "numToString x radix =
     (case x of
        NaN \<Rightarrow> ''NaN''
      | Finite n \<Rightarrow> (if n < 0 then ''-'' else []) @ natToString radix (nat \<bar>n\<bar>))"

text \<open>\<open>xs[i]\<close>, which is \<open>undefined\<close> beyond the end of the array.\<close>

definition at :: "'a list \<Rightarrow> nat \<Rightarrow> 'a option" where
  "at xs i = (if i < length xs then Some (xs ! i) else None)"

section \<open>src/utils/ipv6.ts\<close>

record IPv6SubnetResults =
  networkAddress :: string
  lastAddress :: string
  totalAddresses :: string

text \<open>
  \<open>p ? p.split(':') : []\<close> for an array element \<open>p\<close>, which is falsy when it is
  \<open>undefined\<close> or the empty string.
\<close>

definition groupsOf :: "string option \<Rightarrow> string list" where
  "groupsOf p = (case p of None \<Rightarrow> [] | Some s \<Rightarrow> if s = [] then [] else splitStr s '':'')"

text \<open>The test \<open>/^[0-9A-Fa-f]{1,4}$/.test(segment)\<close>.\<close>

definition isHexDigit :: "char \<Rightarrow> bool" where
  "isHexDigit c = isRadixDigit 16 c"

definition hexGroupTest :: "string \<Rightarrow> bool" where
  "hexGroupTest segment = (1 \<le> length segment \<and> length segment \<le> 4 \<and> list_all isHexDigit segment)"

definition segmentOk :: "string \<Rightarrow> bool" where
  "segmentOk segment =
     (if segment = [] then True
      else if length segment > 4 then False
      else hexGroupTest segment)"

text \<open>
  Nothing in the body of \<open>isValidIPv6Address\<close> throws, so its \<open>catch\<close> branch is never
  taken.
\<close>

definition isValidIPv6Address :: "string \<Rightarrow> bool" where
  "isValidIPv6Address address0 =
     (if address0 = [] then False
      else
        let address = trimStr address0;
            doubleColonCount = matchDoubleColon address
        in if doubleColonCount > 1 then False
           else
             let segments = splitStr address '':'' in
             if doubleColonCount = 1 then
               (let parts = splitStr address ''::'';
                    before = groupsOf (at parts 0);
                    after = groupsOf (at parts 1)
                in if length before + length after > 7 then False
                   else list_all segmentOk segments)
             else
               (if length segments \<noteq> 8 then False
                else list_all segmentOk segments))"

definition expandIPv6Address :: "string \<Rightarrow> jserror + string" where
  "expandIPv6Address address =
     (if address = [] then Inr []
      else
        let parts = splitStr address ''::'' in
        if length parts > 2 then Inr []
        else
          let before = map (\<lambda>x. padStart x 4 CHR ''0'') (groupsOf (at parts 0));
              after = map (\<lambda>x. padStart x 4 CHR ''0'') (groupsOf (at parts 1));
              missing = 8 - (int (length before) + int (length after))
          in case arrayFill missing ''0000'' of
               Inl e \<Rightarrow> Inl e
             | Inr zeros \<Rightarrow> Inr (joinStr (before @ zeros @ after) '':''))"

text \<open>The state of the loop of \<open>compressIPv6Address\<close> that looks for the longest zero run.\<close>

record zeroScan =
  longestZeroStart :: int
  longestZeroLength :: nat
  currentZeroStart :: int
  currentZeroLength :: nat

definition zeroScanInit :: zeroScan where
  "zeroScanInit =
     \<lparr>longestZeroStart = - 1, longestZeroLength = 0, currentZeroStart = - 1, currentZeroLength = 0\<rparr>"

definition zeroScanStep :: "string \<Rightarrow> nat \<Rightarrow> zeroScan \<Rightarrow> zeroScan" where
  "zeroScanStep segment i st =
     (if segment = ''0000'' then
        let cs = (if currentZeroStart st = - 1 then int i else currentZeroStart st);
            cl = currentZeroLength st + 1
        in if cl > longestZeroLength st
           then \<lparr>longestZeroStart = cs, longestZeroLength = cl,
                 currentZeroStart = cs, currentZeroLength = cl\<rparr>
           else st\<lparr>currentZeroStart := cs, currentZeroLength := cl\<rparr>
      else st\<lparr>currentZeroStart := - 1, currentZeroLength := 0\<rparr>)"

text \<open>The loop over the segments from index \<open>i\<close> on.\<close>

fun zeroScanLoop :: "string list \<Rightarrow> nat \<Rightarrow> zeroScan \<Rightarrow> zeroScan" where
  "zeroScanLoop [] i st = st"
| "zeroScanLoop (segment # rest) i st = zeroScanLoop rest (Suc i) (zeroScanStep segment i st)"

text \<open>\<open>parseInt(s, 16).toString(16)\<close>, which strips the leading zeros of a group.\<close>

definition stripZeros :: "string \<Rightarrow> string" where
  "stripZeros s = numToString (parseInt s 16) 16"

definition compressIPv6Address :: "string \<Rightarrow> string" where
  "compressIPv6Address address =
     (let segments = splitStr address '':'';
          st = zeroScanLoop segments 0 zeroScanInit
      in if longestZeroLength st \<ge> 2 then
           let before = map stripZeros (slice segments 0 (Some (longestZeroStart st)));
               after = map stripZeros
                 (slice segments (longestZeroStart st + int (longestZeroLength st)) None)
           in joinStr (before @ [[]] @ after) '':''
         else joinStr (map stripZeros segments) '':'')"

text \<open>
  The loop \<open>for (let i = 0; i < 128; i += 16)\<close>: the 16 bit chunks of a binary string,
  each read in radix 2 and rendered as a hexadecimal group.
\<close>

definition chunkHex :: "string \<Rightarrow> nat \<Rightarrow> string" where
  "chunkHex bin i = padStart (numToString (parseInt (substr bin i 16) 2) 16) 4 CHR ''0''"

definition chunksHex :: "string \<Rightarrow> string list" where
  "chunksHex bin = map (chunkHex bin) [0, 16, 32, 48, 64, 80, 96, 112]"

text \<open>The bits of one group: \<open>parseInt(hex, 16).toString(2).padStart(16, '0')\<close>.\<close>

definition groupBits :: "string \<Rightarrow> string" where
  "groupBits hex = padStart (numToString (parseInt hex 16) 2) 16 CHR ''0''"

text \<open>The \<open>forEach\<close> loop that appends the bits of every group of the expanded address.\<close>

definition toBinary :: "string \<Rightarrow> string" where
  "toBinary expandedAddress = concat (map groupBits (splitStr expandedAddress '':''))"

text \<open>
  The body of the \<open>try\<close> block of \<open>calculateIPv6Subnet\<close>, with the faults it can throw
  as \<open>Inl\<close>, and the function itself, whose \<open>catch\<close> turns every fault into \<open>null\<close>
  (\<open>None\<close> here). The prefix length is an integer, as the component passes it: the
  value of \<open>parseInt\<close>, checked not to be \<open>NaN\<close>. The two calls of \<open>repeat\<close> throw for the
  same prefix lengths, those above 128.
\<close>

definition tryCalculate :: "string \<Rightarrow> int \<Rightarrow> jserror + IPv6SubnetResults option" where
  "tryCalculate address prefixLength =
     (case expandIPv6Address address of
        Inl e \<Rightarrow> Inl e
      | Inr expandedAddress \<Rightarrow>
          (if expandedAddress = [] then Inr None
           else
             let binary = toBinary expandedAddress
             in (case repeatStr ''0'' (128 - prefixLength) of
                   Inl e \<Rightarrow> Inl e
                 | Inr zeros \<Rightarrow>
                     (case repeatStr ''1'' (128 - prefixLength) of
                        Inl e \<Rightarrow> Inl e
                      | Inr ones \<Rightarrow>
                          (let networkBinary = substring0 binary prefixLength @ zeros;
                               lastBinary = substring0 binary prefixLength @ ones;
                               totalBits = 128 - prefixLength;
                               total = (if totalBits = 0 then ''1''
                                        else ''2^'' @ numToString (Finite totalBits) 10)
                           in Inr (Some \<lparr>networkAddress =
                                      compressIPv6Address (joinStr (chunksHex networkBinary) '':''),
                                    lastAddress =
                                      compressIPv6Address (joinStr (chunksHex lastBinary) '':''),
                                    totalAddresses = total\<rparr>))))))"

definition calculateIPv6Subnet :: "string \<Rightarrow> int \<Rightarrow> IPv6SubnetResults option" where
  "calculateIPv6Subnet address prefixLength =
     (case tryCalculate address prefixLength of Inl e \<Rightarrow> None | Inr r \<Rightarrow> r)"

section \<open>src/utils/csvExport.ts\<close>

definition generateIPv6CSV :: "IPv6SubnetResults \<Rightarrow> string" where
  "generateIPv6CSV results =
     (let rows = [[''Property'', ''Value''],
                  [''Network Address'', networkAddress results],
                  [''Last Address'', lastAddress results],
                  [''Total Addresses'', totalAddresses results]]
      in joinStr (map (\<lambda>row. joinStr row '','') rows) [CHR 0x0A])"

section \<open>src/components/IPv6SubnetCalculator.tsx\<close>

text \<open>
  The part of the component's state that the calculation sets, and the body of its effect,
  which runs with the current address and prefix length texts.
\<close>

record calculatorState =
  results :: "IPv6SubnetResults option"
  error :: "string option"

definition prefixError :: string where
  "prefixError = ''Invalid prefix length (must be between 0 and 128)''"

definition ipv6Effect :: "string \<Rightarrow> string \<Rightarrow> calculatorState \<Rightarrow> calculatorState" where
  "ipv6Effect ipAddress prefixLength st =
     (if ipAddress \<noteq> [] \<and> prefixLength \<noteq> [] then
        (if \<not> isValidIPv6Address ipAddress
         then st\<lparr>error := Some ''Invalid IPv6 address format'', results := None\<rparr>
         else
           (case parseInt prefixLength 10 of
              NaN \<Rightarrow> st\<lparr>error := Some prefixError, results := None\<rparr>
            | Finite prefix \<Rightarrow>
                (if prefix < 0 \<or> prefix > 128
                 then st\<lparr>error := Some prefixError, results := None\<rparr>
                 else
                   (case calculateIPv6Subnet ipAddress prefix of
                      Some result \<Rightarrow> st\<lparr>error := None, results := Some result\<rparr>
                    | None \<Rightarrow> st\<lparr>error := Some ''Error calculating subnet''\<rparr>))))
      else st\<lparr>results := None, error := None\<rparr>)"

section \<open>Notions used to state the properties\<close>

text \<open>A full group has exactly 4 hexadecimal digits; a lower case one has none of \<open>A\<close> to \<open>F\<close>.\<close>

definition fullGroup :: "string \<Rightarrow> bool" where
  "fullGroup g = (length g = 4 \<and> list_all isHexDigit g)"

definition lowerHexGroup :: "string \<Rightarrow> bool" where
  "lowerHexGroup g = (length g = 4 \<and> list_all (\<lambda>c. c \<in> set ''0123456789abcdef'') g)"

text \<open>
  Validity in the words of the specification: at most one \<open>::\<close> (matches counted from the
  left, without overlap); without \<open>::\<close> exactly 8 colon-separated groups; with \<open>::\<close> at most
  7 groups before and after it together, where an empty text before or after has no group;
  and every non-empty group is 1 to 4 hexadecimal digits.
\<close>

definition specHexGroup :: "string \<Rightarrow> bool" where
  "specHexGroup g =
     (1 \<le> length g \<and> length g \<le> 4 \<and> list_all (\<lambda>c. c \<in> set ''0123456789abcdefABCDEF'') g)"

definition specGroups :: "string \<Rightarrow> string list" where
  "specGroups s = (if s = [] then [] else splitStr s '':'')"

definition specValid :: "string \<Rightarrow> bool" where
  "specValid text =
     (matchDoubleColon text \<le> 1 \<and>
      (if matchDoubleColon text = 0 then length (splitStr text '':'') = 8
       else length (specGroups (hd (splitStr text ''::''))) +
            length (specGroups (hd (tl (splitStr text ''::'')))) \<le> 7) \<and>
      list_all (\<lambda>g. g = [] \<or> specHexGroup g) (splitStr text '':''))"

text \<open>
  A block of \<open>n\<close> all-zero groups at index \<open>k\<close>, and a zero run: a block that is not empty
  and cannot be extended on either side.
\<close>

definition zerosAt :: "string list \<Rightarrow> nat \<Rightarrow> nat \<Rightarrow> bool" where
  "zerosAt segs k n = (k + n \<le> length segs \<and> list_all (\<lambda>g. g = ''0000'') (take n (drop k segs)))"

definition zeroRun :: "string list \<Rightarrow> nat \<Rightarrow> nat \<Rightarrow> bool" where
  "zeroRun segs k n =
     (0 < n \<and> zerosAt segs k n \<and>
      \<not> (0 < k \<and> segs ! (k - 1) = ''0000'') \<and>
      \<not> (k + n < length segs \<and> segs ! (k + n) = ''0000''))"

text \<open>
  Expansion in the words of the specification: the groups before and after the \<open>::\<close>, and
  the 8 groups made of the padded groups before, the zero groups that are missing, and the
  padded groups after.
\<close>

definition groupsBefore :: "string \<Rightarrow> string list" where
  "groupsBefore text = groupsOf (at (splitStr text ''::'') 0)"

definition groupsAfter :: "string \<Rightarrow> string list" where
  "groupsAfter text = groupsOf (at (splitStr text ''::'') 1)"

definition expandedGroups :: "string \<Rightarrow> string list" where
  "expandedGroups text =
     map (\<lambda>x. padStart x 4 CHR ''0'') (groupsBefore text) @
     replicate (8 - (length (groupsBefore text) + length (groupsAfter text))) ''0000'' @
     map (\<lambda>x. padStart x 4 CHR ''0'') (groupsAfter text)"

text \<open>
  What the loop of \<open>compressIPv6Address\<close> knows after the groups \<open>pre\<close>: the current run is
  the longest block of zero groups at the end of \<open>pre\<close>, and the longest run is the
  leftmost among the longest blocks of zero groups of \<open>pre\<close>.
\<close>

definition scanInv :: "string list \<Rightarrow> zeroScan \<Rightarrow> bool" where
  "scanInv pre st =
     (currentZeroLength st \<le> length pre \<and>
      zerosAt pre (length pre - currentZeroLength st) (currentZeroLength st) \<and>
      \<not> (currentZeroLength st < length pre \<and>
         pre ! (length pre - currentZeroLength st - 1) = ''0000'') \<and>
      currentZeroStart st =
        (if currentZeroLength st = 0 then - 1 else int (length pre - currentZeroLength st)) \<and>
      (\<forall>k m. zerosAt pre k m \<longrightarrow> m \<le> longestZeroLength st) \<and>
      (longestZeroLength st = 0 \<or>
       0 \<le> longestZeroStart st \<and>
       zerosAt pre (nat (longestZeroStart st)) (longestZeroLength st) \<and>
       (\<forall>k. zerosAt pre k (longestZeroLength st) \<longrightarrow> nat (longestZeroStart st) \<le> k)))"

section \<open>Evaluating the model\<close>

lemma replicate_numeral: "replicate (numeral k) x = x # replicate (pred_numeral k) x"
  by (simp add: numeral_eq_Suc)

lemma concat_replicate_single: "concat (replicate n [c]) = replicate n c"
  by (induction n) simp_all

lemmas eval_prim =
  replicate_numeral natToString.simps digitChar_def digitValue_def [unfolded Let_def]
  isRadixDigit_def digitsValue_def parseInt_def [unfolded Let_def] numToString_def padStart_def
  repeatStr_def arrayFill_def substring0_def substr_def sliceIndex_def slice_def [unfolded Let_def]
  at_def groupsOf_def isHexDigit_def hexGroupTest_def segmentOk_def zeroScanInit_def
  zeroScanStep_def [unfolded Let_def] stripZeros_def chunkHex_def chunksHex_def groupBits_def
  toBinary_def isWhiteSpace_def trimStr_def

lemmas eval_expand = expandIPv6Address_def [unfolded Let_def]

lemmas eval_compress = compressIPv6Address_def [unfolded Let_def]

lemmas eval_isValid = isValidIPv6Address_def [unfolded Let_def]

text \<open>The result of \<open>calculateIPv6Subnet\<close> once the address expands and the prefix length is at most 128.\<close>

lemma calculateIPv6Subnet_steps:
  assumes "expandIPv6Address a = Inr x" and "x \<noteq> []" and "p \<le> 128"
  shows "calculateIPv6Subnet a p =
    Some \<lparr>networkAddress = compressIPv6Address
             (joinStr (chunksHex (take (nat p) (toBinary x) @ replicate (nat (128 - p)) CHR ''0'')) '':''),
          lastAddress = compressIPv6Address
             (joinStr (chunksHex (take (nat p) (toBinary x) @ replicate (nat (128 - p)) CHR ''1'')) '':''),
          totalAddresses = (if p = 128 then ''1'' else ''2^'' @ numToString (Finite (128 - p)) 10)\<rparr>"
  using assms
  by (simp add: calculateIPv6Subnet_def tryCalculate_def repeatStr_def substring0_def Let_def
      concat_replicate_single)

lemma expand_2001_db8: "expandIPv6Address ''2001:db8::'' = Inr ''2001:0db8:0000:0000:0000:0000:0000:0000''"
  unfolding eval_expand by (simp add: eval_prim)

lemma toBinary_2001_db8: "toBinary ''2001:0db8:0000:0000:0000:0000:0000:0000'' = ''00100000000000010000110110111000000000000000000000000000000000000000000000000000000000000000000000000000000000000000000000000000''"
  by (simp add: eval_prim)

lemma chunksHex_2001_db8_network: "chunksHex ''00100000000000010000110110111000000000000000000000000000000000000000000000000000000000000000000000000000000000000000000000000000'' = [''2001'', ''0db8'', ''0000'', ''0000'', ''0000'', ''0000'', ''0000'', ''0000'']"
  by (simp add: eval_prim)

lemma chunksHex_2001_db8_last: "chunksHex ''00100000000000010000110110111000000000000000000000000000000000001111111111111111111111111111111111111111111111111111111111111111'' = [''2001'', ''0db8'', ''0000'', ''0000'', ''ffff'', ''ffff'', ''ffff'', ''ffff'']"
  by (simp add: eval_prim)

lemma compress_2001_db8_network: "compressIPv6Address ''2001:0db8:0000:0000:0000:0000:0000:0000'' = ''2001:db8:''"
  unfolding eval_compress by (simp add: eval_prim)

lemma compress_2001_db8_last: "compressIPv6Address ''2001:0db8:0000:0000:ffff:ffff:ffff:ffff'' = ''2001:db8::ffff:ffff:ffff:ffff''"
  unfolding eval_compress by (simp add: eval_prim)


section \<open>Splitting and joining\<close>

lemma splitStr_not_Nil: "sep \<noteq> [] \<Longrightarrow> splitStr s sep \<noteq> []"
  by (induction s sep rule: splitStr.induct) (auto split: list.splits)

lemma splitStr_single_Cons:
  "splitStr (c # cs) [d] =
     (if c = d then [] # splitStr cs [d]
      else (c # hd (splitStr cs [d])) # tl (splitStr cs [d]))"
  using splitStr_not_Nil [of "[d]" cs] by (auto split: list.splits)

lemma splitStr_single_free: "d \<notin> set s \<Longrightarrow> splitStr s [d] = [s]"
  by (induction s) (auto simp add: splitStr_single_Cons simp del: splitStr.simps(2))

lemma splitStr_single_append: "splitStr (x @ d # y) [d] = splitStr x [d] @ splitStr y [d]"
proof (induction x)
  case Nil
  show ?case by simp
next
  case (Cons c x)
  have "splitStr x [d] \<noteq> []" by (simp add: splitStr_not_Nil)
  with Cons show ?case
    by (cases "splitStr x [d]") (simp_all add: splitStr_single_Cons del: splitStr.simps(2))
qed

lemma length_splitStr_single: "length (splitStr s [d]) = Suc (count_list s d)"
proof (induction s)
  case Nil
  show ?case by simp
next
  case (Cons c s)
  have "splitStr s [d] \<noteq> []" by (simp add: splitStr_not_Nil)
  with Cons show ?case
    by (cases "splitStr s [d]") (simp_all add: splitStr_single_Cons del: splitStr.simps(2))
qed

lemma startsWith_append_drop: "startsWith s p \<Longrightarrow> p @ drop (length p) s = s"
  by (induction s p rule: startsWith.induct) auto

lemma joinStr_Cons: "xs \<noteq> [] \<Longrightarrow> joinStr (x # xs) sep = x @ sep @ joinStr xs sep"
  by (cases xs) simp_all

lemma joinStr_splitStr: "sep \<noteq> [] \<Longrightarrow> joinStr (splitStr s sep) sep = s"
proof (induction s sep rule: splitStr.induct)
  case (1 sep)
  then show ?case by simp
next
  case (2 c cs sep)
  show ?case
  proof (cases "startsWith (c # cs) sep")
    case True
    with 2 have "joinStr (splitStr (drop (length sep) (c # cs)) sep) sep = drop (length sep) (c # cs)"
      by simp
    moreover have "splitStr (drop (length sep) (c # cs)) sep \<noteq> []"
      using 2 by (simp add: splitStr_not_Nil)
    ultimately show ?thesis
      using True 2(4) startsWith_append_drop [OF True] by (simp add: joinStr_Cons)
  next
    case False
    with 2 have ih: "joinStr (splitStr cs sep) sep = cs" by simp
    obtain p ps where ps: "splitStr cs sep = p # ps"
      using splitStr_not_Nil [OF 2(4), of cs] by (cases "splitStr cs sep") auto
    show ?thesis
      using False 2(4) ih ps by (cases ps) simp_all
  qed
qed

lemma splitStr_joinStr_single:
  "gs \<noteq> [] \<Longrightarrow> \<forall>g\<in>set gs. d \<notin> set g \<Longrightarrow> splitStr (joinStr gs [d]) [d] = gs"
proof (induction gs)
  case Nil
  then show ?case by simp
next
  case (Cons g gs)
  show ?case
  proof (cases gs)
    case Nil
    with Cons.prems show ?thesis by (simp add: splitStr_single_free)
  next
    case (Cons h hs)
    with Cons.IH Cons.prems have "splitStr (joinStr gs [d]) [d] = gs" by simp
    moreover have "joinStr (g # gs) [d] = g @ d # joinStr gs [d]"
      using Cons by simp
    ultimately show ?thesis
      using Cons.prems by (simp add: splitStr_single_append splitStr_single_free del: splitStr.simps)
  qed
qed

lemma joinStr_not_Nil: "2 \<le> length gs \<Longrightarrow> sep \<noteq> [] \<Longrightarrow> joinStr gs sep \<noteq> []"
proof -
  assume "2 \<le> length gs" and sep: "sep \<noteq> []"
  then obtain x y ys where "gs = x # y # ys"
    by (cases gs; cases "tl gs") auto
  with sep show ?thesis by simp
qed

lemma joinStr_append:
  "xs \<noteq> [] \<Longrightarrow> ys \<noteq> [] \<Longrightarrow> joinStr (xs @ ys) sep = joinStr xs sep @ sep @ joinStr ys sep"
proof (induction xs)
  case Nil
  then show ?case by simp
next
  case (Cons x xs)
  then show ?case by (cases xs) (simp_all add: joinStr_Cons)
qed

text \<open>An empty token between two lists that are not empty gives the separator twice.\<close>

lemma joinStr_empty_token:
  assumes "xs \<noteq> []" and "ys \<noteq> []"
  shows "joinStr (xs @ [[]] @ ys) sep = joinStr xs sep @ sep @ sep @ joinStr ys sep"
proof -
  have "joinStr (xs @ ([] # ys)) sep = joinStr xs sep @ sep @ joinStr ([] # ys) sep"
    using assms(1) by (intro joinStr_append) simp_all
  also have "joinStr ([] # ys) sep = sep @ joinStr ys sep"
    using assms(2) by (simp add: joinStr_Cons)
  finally show ?thesis by simp
qed

section \<open>The double colon\<close>

lemma splitStr_dc_step:
  "\<not> (c = CHR '':'' \<and> s \<noteq> [] \<and> hd s = CHR '':'') \<Longrightarrow>
   splitStr (c # s) ''::'' = (c # hd (splitStr s ''::'')) # tl (splitStr s ''::'')"
  using splitStr_not_Nil [of "''::''" s] by (cases s) (auto split: list.splits)

lemma splitStr_dc_free: "CHR '':'' \<notin> set w \<Longrightarrow> splitStr w ''::'' = [w]"
  by (induction w) (auto simp add: splitStr_dc_step simp del: splitStr.simps(2))

lemma length_splitStr_dc: "length (splitStr s ''::'') = Suc (matchDoubleColon s)"
proof (induction s rule: matchDoubleColon.induct)
  case (1 a b cs)
  show ?case
  proof (cases "a = CHR '':'' \<and> b = CHR '':''")
    case True
    with 1 show ?thesis by simp
  next
    case False
    then have "splitStr (a # b # cs) ''::'' =
        (a # hd (splitStr (b # cs) ''::'')) # tl (splitStr (b # cs) ''::'')"
      by (intro splitStr_dc_step) auto
    moreover have "splitStr (b # cs) ''::'' \<noteq> []" by (rule splitStr_not_Nil) simp
    ultimately show ?thesis using False 1 by (cases "splitStr (b # cs) ''::''") auto
  qed
next
  case (2 a)
  show ?case by simp
next
  case 3
  show ?case by simp
qed

lemma splitStr_dc_prefix:
  "CHR '':'' \<notin> set w \<Longrightarrow>
   splitStr (w @ s) ''::'' = (w @ hd (splitStr s ''::'')) # tl (splitStr s ''::'')"
proof (induction w)
  case Nil
  show ?case using splitStr_not_Nil [of "''::''" s] by simp
next
  case (Cons c w)
  then have "splitStr (c # (w @ s)) ''::'' =
      (c # hd (splitStr (w @ s) ''::'')) # tl (splitStr (w @ s) ''::'')"
    by (intro splitStr_dc_step) auto
  with Cons show ?case by simp
qed

lemma splitStr_dc_suffix:
  "CHR '':'' \<notin> set w \<Longrightarrow>
   splitStr (s @ w) ''::'' = butlast (splitStr s ''::'') @ [last (splitStr s ''::'') @ w]"
proof (induction s rule: matchDoubleColon.induct)
  case (1 a b cs)
  have ne: "splitStr cs ''::'' \<noteq> []" "splitStr (b # cs) ''::'' \<noteq> []"
    by (rule splitStr_not_Nil, simp)+
  show ?case
  proof (cases "a = CHR '':'' \<and> b = CHR '':''")
    case True
    with 1 ne show ?thesis by simp
  next
    case False
    then have l: "splitStr (a # (b # cs) @ w) ''::'' =
        (a # hd (splitStr ((b # cs) @ w) ''::'')) # tl (splitStr ((b # cs) @ w) ''::'')"
      by (intro splitStr_dc_step) auto
    from False have r: "splitStr (a # b # cs) ''::'' =
        (a # hd (splitStr (b # cs) ''::'')) # tl (splitStr (b # cs) ''::'')"
      by (intro splitStr_dc_step) auto
    from False 1 have ih: "splitStr ((b # cs) @ w) ''::'' =
        butlast (splitStr (b # cs) ''::'') @ [last (splitStr (b # cs) ''::'') @ w]"
      by auto
    obtain p ps where ps: "splitStr (b # cs) ''::'' = p # ps"
      using ne(2) by (cases "splitStr (b # cs) ''::''") auto
    show ?thesis
      using l r ih ps by (cases ps) (simp_all del: splitStr.simps)
  qed
next
  case (2 a)
  then have "splitStr (a # w) ''::'' = (a # hd (splitStr w ''::'')) # tl (splitStr w ''::'')"
    by (intro splitStr_dc_step) (cases w; auto)
  with 2 show ?case by (simp add: splitStr_dc_free del: splitStr.simps(2)) auto
next
  case 3
  then show ?case by (simp add: splitStr_dc_free)
qed

lemma splitStr_dc_single: "matchDoubleColon s = 0 \<Longrightarrow> splitStr s ''::'' = [s]"
proof -
  assume "matchDoubleColon s = 0"
  then have "length (splitStr s ''::'') = 1" by (simp add: length_splitStr_dc)
  then obtain x where x: "splitStr s ''::'' = [x]"
    by (cases "splitStr s ''::''") auto
  have "joinStr (splitStr s ''::'') ''::'' = s" by (rule joinStr_splitStr) simp
  with x show ?thesis by simp
qed

lemma splitStr_dc_pair:
  assumes "matchDoubleColon s = 1"
  obtains p0 p1 where "splitStr s ''::'' = [p0, p1]" and "s = p0 @ ''::'' @ p1"
proof -
  from assms have "length (splitStr s ''::'') = 2" by (simp add: length_splitStr_dc)
  then obtain p0 p1 where p: "splitStr s ''::'' = [p0, p1]"
    by (cases "splitStr s ''::''"; cases "tl (splitStr s ''::'')") auto
  have "joinStr (splitStr s ''::'') ''::'' = s" by (rule joinStr_splitStr) simp
  with p have "s = p0 @ ''::'' @ p1" by simp
  with p show ?thesis by (rule that)
qed

section \<open>Trimming\<close>

lemma isWhiteSpace_not_colon: "isWhiteSpace c \<Longrightarrow> c \<noteq> CHR '':''"
  by (auto simp add: isWhiteSpace_def)

lemma trimStr_decomp:
  obtains w1 w2 where "a = w1 @ trimStr a @ w2"
    and "CHR '':'' \<notin> set w1" and "CHR '':'' \<notin> set w2"
proof -
  let ?u = "dropWhile isWhiteSpace a"
  let ?w1 = "takeWhile isWhiteSpace a"
  let ?w2 = "rev (takeWhile isWhiteSpace (rev ?u))"
  have "trimStr a @ ?w2 = rev (takeWhile isWhiteSpace (rev ?u) @ dropWhile isWhiteSpace (rev ?u))"
    by (simp only: trimStr_def rev_append)
  also have "\<dots> = rev (rev ?u)"
    by (simp only: takeWhile_dropWhile_id)
  finally have "?u = trimStr a @ ?w2"
    by simp
  then have "a = ?w1 @ trimStr a @ ?w2"
    by (metis takeWhile_dropWhile_id)
  moreover have "CHR '':'' \<notin> set ?w1"
    using isWhiteSpace_not_colon by (auto dest: set_takeWhileD)
  moreover have "CHR '':'' \<notin> set ?w2"
    using isWhiteSpace_not_colon by (auto dest: set_takeWhileD)
  ultimately show ?thesis by (rule that)
qed

lemma length_groupsOf:
  "length (groupsOf (Some s)) = (if s = [] then 0 else Suc (count_list s CHR '':''))"
  by (simp add: groupsOf_def length_splitStr_single)

lemma count_list_free: "c \<notin> set w \<Longrightarrow> count_list w c = 0"
  by (induction w) auto

section \<open>Validity and expansion\<close>

lemma isValidIPv6Address_iff:
  "isValidIPv6Address a \<longleftrightarrow>
     a \<noteq> [] \<and>
     (matchDoubleColon (trimStr a) = 0 \<and> length (splitStr (trimStr a) '':'') = 8 \<or>
      matchDoubleColon (trimStr a) = 1 \<and>
      length (groupsOf (at (splitStr (trimStr a) ''::'') 0)) +
      length (groupsOf (at (splitStr (trimStr a) ''::'') 1)) \<le> 7) \<and>
     list_all segmentOk (splitStr (trimStr a) '':'')"
  by (auto simp add: isValidIPv6Address_def Let_def)

lemma expandIPv6Address_Inr:
  assumes "a \<noteq> []" and "length (splitStr a ''::'') \<le> 2"
    and "length (groupsOf (at (splitStr a ''::'') 0)) +
         length (groupsOf (at (splitStr a ''::'') 1)) \<le> 8"
  shows "expandIPv6Address a =
    Inr (joinStr (map (\<lambda>x. padStart x 4 CHR ''0'') (groupsOf (at (splitStr a ''::'') 0)) @
                  replicate (8 - (length (groupsOf (at (splitStr a ''::'') 0)) +
                                  length (groupsOf (at (splitStr a ''::'') 1)))) ''0000'' @
                  map (\<lambda>x. padStart x 4 CHR ''0'') (groupsOf (at (splitStr a ''::'') 1))) '':'')"
proof -
  let ?nb = "length (groupsOf (at (splitStr a ''::'') 0))"
  let ?na = "length (groupsOf (at (splitStr a ''::'') 1))"
  have "nat (8 - (int ?nb + int ?na)) = 8 - (?nb + ?na)"
    by linarith
  moreover have "\<not> 8 - (int ?nb + int ?na) < 0"
    using assms(3) by linarith
  ultimately show ?thesis
    using assms(1,2) by (simp add: expandIPv6Address_def Let_def arrayFill_def)
qed

text \<open>The pieces of a text around its white space, when the trimmed text has no double colon.\<close>

lemma splitStr_dc_untrimmed_single:
  assumes "matchDoubleColon t = 0" and "CHR '':'' \<notin> set w1" and "CHR '':'' \<notin> set w2"
  shows "splitStr (w1 @ t @ w2) ''::'' = [w1 @ t @ w2]"
proof -
  have "splitStr (t @ w2) ''::'' = [t @ w2]"
    using assms by (simp add: splitStr_dc_suffix splitStr_dc_single del: splitStr.simps)
  then show ?thesis
    using assms(2) by (simp add: splitStr_dc_prefix del: splitStr.simps)
qed

lemma splitStr_dc_untrimmed_pair:
  assumes "splitStr t ''::'' = [p0, p1]" and "CHR '':'' \<notin> set w1" and "CHR '':'' \<notin> set w2"
  shows "splitStr (w1 @ t @ w2) ''::'' = [w1 @ p0, p1 @ w2]"
proof -
  have "splitStr (t @ w2) ''::'' = [p0, p1 @ w2]"
    using assms by (simp add: splitStr_dc_suffix del: splitStr.simps)
  then show ?thesis
    using assms(2) by (simp add: splitStr_dc_prefix del: splitStr.simps)
qed

lemma length_groupsOf_untrimmed_left:
  "CHR '':'' \<notin> set w \<Longrightarrow>
   length (groupsOf (Some (w @ p))) \<le> (if p = [] then 1 else length (groupsOf (Some p)))"
  by (simp add: length_groupsOf count_list_free)

lemma length_groupsOf_untrimmed_right:
  "CHR '':'' \<notin> set w \<Longrightarrow>
   length (groupsOf (Some (p @ w))) \<le> (if p = [] then 1 else length (groupsOf (Some p)))"
  by (simp add: length_groupsOf count_list_free)

lemma expandIPv6Address_of_valid:
  assumes "isValidIPv6Address a"
  shows "\<exists>x. expandIPv6Address a = Inr x \<and> x \<noteq> []"
proof -
  let ?t = "trimStr a"
  from assms have a: "a \<noteq> []"
    and c: "matchDoubleColon ?t = 0 \<and> length (splitStr ?t '':'') = 8 \<or>
      matchDoubleColon ?t = 1 \<and>
      length (groupsOf (at (splitStr ?t ''::'') 0)) +
      length (groupsOf (at (splitStr ?t ''::'') 1)) \<le> 7"
    by (simp_all add: isValidIPv6Address_iff)
  obtain w1 w2 where d: "a = w1 @ ?t @ w2" and w1: "CHR '':'' \<notin> set w1" and w2: "CHR '':'' \<notin> set w2"
    by (rule trimStr_decomp)
  let ?parts = "splitStr a ''::''"
  let ?nb = "length (groupsOf (at ?parts 0))"
  let ?na = "length (groupsOf (at ?parts 1))"
  have "length ?parts \<le> 2 \<and> ?nb + ?na \<le> 8"
    using c
  proof
    assume h: "matchDoubleColon ?t = 0 \<and> length (splitStr ?t '':'') = 8"
    then have "splitStr (w1 @ ?t @ w2) ''::'' = [w1 @ ?t @ w2]"
      using w1 w2 by (intro splitStr_dc_untrimmed_single) simp_all
    with d have p: "?parts = [a]" by simp
    have "count_list a CHR '':'' = count_list (w1 @ ?t @ w2) CHR '':''"
      using d by simp
    also have "\<dots> = count_list ?t CHR '':''"
      using w1 w2 by (simp add: count_list_free)
    finally have "Suc (count_list a CHR '':'') = 8"
      using h by (simp add: length_splitStr_single)
    with p a show ?thesis
      by (simp add: at_def length_groupsOf) (simp add: groupsOf_def)
  next
    assume h: "matchDoubleColon ?t = 1 \<and>
      length (groupsOf (at (splitStr ?t ''::'') 0)) +
      length (groupsOf (at (splitStr ?t ''::'') 1)) \<le> 7"
    then obtain p0 p1 where p: "splitStr ?t ''::'' = [p0, p1]"
      by (blast elim: splitStr_dc_pair)
    then have "splitStr (w1 @ ?t @ w2) ''::'' = [w1 @ p0, p1 @ w2]"
      using w1 w2 by (rule splitStr_dc_untrimmed_pair)
    with d have q: "?parts = [w1 @ p0, p1 @ w2]" by simp
    from h p have le: "length (groupsOf (Some p0)) + length (groupsOf (Some p1)) \<le> 7"
      by (simp add: at_def)
    have l: "length (groupsOf (Some (w1 @ p0))) \<le> (if p0 = [] then 1 else length (groupsOf (Some p0)))"
      using w1 by (rule length_groupsOf_untrimmed_left)
    have r: "length (groupsOf (Some (p1 @ w2))) \<le> (if p1 = [] then 1 else length (groupsOf (Some p1)))"
      using w2 by (rule length_groupsOf_untrimmed_right)
    have "length (groupsOf (Some (w1 @ p0))) + length (groupsOf (Some (p1 @ w2))) \<le> 8"
      using le l r by (simp split: if_splits)
    with q show ?thesis by (simp add: at_def)
  qed
  then have le2: "length ?parts \<le> 2" and le8: "?nb + ?na \<le> 8"
    by simp_all
  let ?full = "map (\<lambda>x. padStart x 4 CHR ''0'') (groupsOf (at ?parts 0)) @
      replicate (8 - (?nb + ?na)) ''0000'' @
      map (\<lambda>x. padStart x 4 CHR ''0'') (groupsOf (at ?parts 1))"
  have e: "expandIPv6Address a = Inr (joinStr ?full '':'')"
    using a le2 le8 by (rule expandIPv6Address_Inr)
  have "length ?full = 8" using le8 by simp
  then have "joinStr ?full '':'' \<noteq> []"
    by (intro joinStr_not_Nil) simp_all
  with e show ?thesis by blast
qed

section \<open>Hexadecimal groups\<close>

lemma char_eq_iff_of_char: "c = d \<longleftrightarrow> (of_char c :: nat) = of_char d"
  by (metis char_of_char)

lemma hex_code_ranges:
  "(n::nat) \<in> {48, 49, 50, 51, 52, 53, 54, 55, 56, 57, 97, 98, 99, 100, 101, 102,
       65, 66, 67, 68, 69, 70} \<longleftrightarrow>
   (48 \<le> n \<and> n \<le> 57) \<or> (97 \<le> n \<and> n \<le> 102) \<or> (65 \<le> n \<and> n \<le> 70)"
  by (simp only: insert_iff empty_iff) arith

lemma isHexDigit_iff: "isHexDigit c \<longleftrightarrow> c \<in> set ''0123456789abcdefABCDEF''"
proof -
  define n where "n = (of_char c :: nat)"
  have "c \<in> set ''0123456789abcdefABCDEF'' \<longleftrightarrow>
      n \<in> {48, 49, 50, 51, 52, 53, 54, 55, 56, 57, 97, 98, 99, 100, 101, 102,
        65, 66, 67, 68, 69, 70}"
    by (simp add: char_eq_iff_of_char [of c] n_def)
  also have "\<dots> \<longleftrightarrow> (48 \<le> n \<and> n \<le> 57) \<or> (97 \<le> n \<and> n \<le> 102) \<or> (65 \<le> n \<and> n \<le> 70)"
    by (rule hex_code_ranges)
  also have "\<dots> \<longleftrightarrow> isHexDigit c"
    by (auto simp add: isHexDigit_def isRadixDigit_def digitValue_def Let_def n_def)
  finally show ?thesis by simp
qed

lemma segmentOk_iff: "segmentOk g \<longleftrightarrow> g = [] \<or> specHexGroup g"
  by (auto simp add: segmentOk_def hexGroupTest_def specHexGroup_def isHexDigit_iff list_all_iff)

lemma isHexDigit_zero: "isHexDigit CHR ''0''"
  by (simp add: isHexDigit_iff)

lemma fullGroup_padStart: "segmentOk g \<Longrightarrow> fullGroup (padStart g 4 CHR ''0'')"
  by (auto simp add: segmentOk_def hexGroupTest_def fullGroup_def padStart_def isHexDigit_zero
      list_all_iff split: if_splits)

lemma fullGroup_zeros: "fullGroup ''0000''"
  by (simp add: fullGroup_def isHexDigit_zero)

lemma set_groupsOf: "set (groupsOf (Some s)) \<subseteq> set (splitStr s '':'')"
  by (simp add: groupsOf_def)

lemma groups_are_segments:
  assumes "matchDoubleColon t \<le> 1"
  shows "set (groupsBefore t) \<union> set (groupsAfter t) \<subseteq> set (splitStr t '':'')"
proof (cases "matchDoubleColon t = 0")
  case True
  then have "splitStr t ''::'' = [t]" by (rule splitStr_dc_single)
  then show ?thesis
    by (simp add: groupsBefore_def groupsAfter_def at_def groupsOf_def)
next
  case False
  with assms have "matchDoubleColon t = 1" by simp
  then obtain p0 p1 where p: "splitStr t ''::'' = [p0, p1]" and t: "t = p0 @ ''::'' @ p1"
    by (rule splitStr_dc_pair)
  have "splitStr (p0 @ CHR '':'' # (CHR '':'' # p1)) '':'' =
      splitStr p0 '':'' @ splitStr (CHR '':'' # p1) '':''"
    by (rule splitStr_single_append)
  with t have "splitStr t '':'' = splitStr p0 '':'' @ [] # splitStr p1 '':''"
    by simp
  with p show ?thesis
    using set_groupsOf [of p0] set_groupsOf [of p1]
    by (auto simp add: groupsBefore_def groupsAfter_def at_def)
qed

lemma expandIPv6Address_expandedGroups:
  assumes "a \<noteq> []" and "matchDoubleColon a \<le> 1"
    and "length (groupsBefore a) + length (groupsAfter a) \<le> 8"
  shows "expandIPv6Address a = Inr (joinStr (expandedGroups a) '':'')"
    and "length (expandedGroups a) = 8"
proof -
  have "length (splitStr a ''::'') \<le> 2"
    using assms(2) by (simp add: length_splitStr_dc)
  with assms(1) show "expandIPv6Address a = Inr (joinStr (expandedGroups a) '':'')"
    using assms(3) unfolding expandedGroups_def groupsBefore_def groupsAfter_def
    by (rule expandIPv6Address_Inr)
  show "length (expandedGroups a) = 8"
    using assms(3) by (simp add: expandedGroups_def)
qed

lemma valid_trimmed_groups:
  assumes "isValidIPv6Address a"
  shows "trimStr a \<noteq> []" and "matchDoubleColon (trimStr a) \<le> 1"
    and "length (groupsBefore (trimStr a)) + length (groupsAfter (trimStr a)) \<le> 8"
    and "list_all segmentOk (splitStr (trimStr a) '':'')"
proof -
  let ?t = "trimStr a"
  from assms have c: "matchDoubleColon ?t = 0 \<and> length (splitStr ?t '':'') = 8 \<or>
      matchDoubleColon ?t = 1 \<and>
      length (groupsOf (at (splitStr ?t ''::'') 0)) +
      length (groupsOf (at (splitStr ?t ''::'') 1)) \<le> 7"
    and s: "list_all segmentOk (splitStr ?t '':'')"
    by (simp_all add: isValidIPv6Address_iff)
  from c show "?t \<noteq> []" by auto
  from c show "matchDoubleColon ?t \<le> 1" by auto
  from s show "list_all segmentOk (splitStr ?t '':'')" .
  from c show "length (groupsBefore ?t) + length (groupsAfter ?t) \<le> 8"
  proof
    assume h: "matchDoubleColon ?t = 0 \<and> length (splitStr ?t '':'') = 8"
    then have "splitStr ?t ''::'' = [?t]" by (simp add: splitStr_dc_single)
    with h show ?thesis
      by (simp add: groupsBefore_def groupsAfter_def at_def groupsOf_def)
  next
    assume "matchDoubleColon ?t = 1 \<and>
      length (groupsOf (at (splitStr ?t ''::'') 0)) +
      length (groupsOf (at (splitStr ?t ''::'') 1)) \<le> 7"
    then show ?thesis by (simp add: groupsBefore_def groupsAfter_def)
  qed
qed

lemma valid_groups_full:
  assumes "isValidIPv6Address a"
  shows "list_all fullGroup (expandedGroups (trimStr a))"
proof -
  let ?t = "trimStr a"
  have "set (groupsBefore ?t) \<union> set (groupsAfter ?t) \<subseteq> set (splitStr ?t '':'')"
    using valid_trimmed_groups(2) [OF assms] by (rule groups_are_segments)
  moreover have "\<forall>g\<in>set (splitStr ?t '':''). segmentOk g"
    using valid_trimmed_groups(4) [OF assms] by (simp add: list_all_iff)
  ultimately have "\<forall>g\<in>set (groupsBefore ?t) \<union> set (groupsAfter ?t). segmentOk g"
    by blast
  then show ?thesis
    by (auto simp add: expandedGroups_def list_all_iff fullGroup_padStart fullGroup_zeros)
qed

section \<open>Rendering and reading numbers\<close>

text \<open>
  Reading the digits that \<open>toString\<close> prints gives the number back: in particular the
  radix 10 rendering of a number that is not negative is its decimal numeral.
\<close>

lemma digitValue_digitChar_low: "v < 12 \<Longrightarrow> digitValue (digitChar v) = Some v"
proof -
  assume "v < 12"
  then have "v \<in> {0, 1, 2, 3, 4, 5, 6, 7, 8, 9, 10, 11}"
    by (simp only: insert_iff empty_iff) arith
  then show ?thesis
    by (auto simp add: digitChar_def digitValue_def)
qed

lemma digitValue_digitChar_mid:
  "12 \<le> v \<Longrightarrow> v < 24 \<Longrightarrow> digitValue (digitChar v) = Some v"
proof -
  assume "12 \<le> v" and "v < 24"
  then have "v \<in> {12, 13, 14, 15, 16, 17, 18, 19, 20, 21, 22, 23}"
    by (simp only: insert_iff empty_iff) arith
  then show ?thesis
    by (auto simp add: digitChar_def digitValue_def)
qed

lemma digitValue_digitChar_high:
  "24 \<le> v \<Longrightarrow> v < 36 \<Longrightarrow> digitValue (digitChar v) = Some v"
proof -
  assume "24 \<le> v" and "v < 36"
  then have "v \<in> {24, 25, 26, 27, 28, 29, 30, 31, 32, 33, 34, 35}"
    by (simp only: insert_iff empty_iff) arith
  then show ?thesis
    by (auto simp add: digitChar_def digitValue_def)
qed

lemma digitValue_digitChar: "v < 36 \<Longrightarrow> digitValue (digitChar v) = Some v"
  using digitValue_digitChar_low [of v] digitValue_digitChar_mid [of v]
    digitValue_digitChar_high [of v]
  by linarith

lemma digitsValue_snoc:
  "digitsValue r (z @ [c]) =
     digitsValue r z * r + (case digitValue c of None \<Rightarrow> 0 | Some v \<Rightarrow> v)"
  by (simp add: digitsValue_def)

lemma natToString_digits:
  assumes "2 \<le> r" and "r \<le> 36"
  shows "list_all (isRadixDigit r) (natToString r n) \<and> natToString r n \<noteq> [] \<and>
         digitsValue r (natToString r n) = n"
  using assms
proof (induction r n rule: natToString.induct)
  case (1 r n)
  show ?case
  proof (cases "n < r")
    case True
    with 1(2,3) have "digitValue (digitChar n) = Some n"
      by (intro digitValue_digitChar) simp
    moreover from this True have "isRadixDigit r (digitChar n)"
      by (simp add: isRadixDigit_def)
    ultimately show ?thesis
      using True by (simp add: natToString.simps [of r n] digitsValue_def)
  next
    case False
    with 1 have ih: "list_all (isRadixDigit r) (natToString r (n div r)) \<and>
        natToString r (n div r) \<noteq> [] \<and> digitsValue r (natToString r (n div r)) = n div r"
      by simp
    have "n mod r < r" using 1(2) by simp
    with 1(3) have d: "digitValue (digitChar (n mod r)) = Some (n mod r)"
      by (intro digitValue_digitChar) simp
    have s: "natToString r n = natToString r (n div r) @ [digitChar (n mod r)]"
      using False 1(2) by (simp add: natToString.simps [of r n])
    have "isRadixDigit r (digitChar (n mod r))"
      using d \<open>n mod r < r\<close> by (simp add: isRadixDigit_def)
    then show ?thesis
      unfolding s using ih d by (simp add: digitsValue_snoc)
  qed
qed

lemma isRadixDigit_plain:
  assumes "isRadixDigit r c"
  shows "\<not> isWhiteSpace c" and "c \<noteq> CHR ''+''" and "c \<noteq> CHR ''-''"
proof -
  from assms have d: "digitValue c \<noteq> None"
    by (auto simp add: isRadixDigit_def split: option.splits)
  have w: "digitValue c = None" if "isWhiteSpace c \<or> c = CHR ''+'' \<or> c = CHR ''-''"
    using that by (auto simp add: isWhiteSpace_def digitValue_def)
  from d w show "\<not> isWhiteSpace c" and "c \<noteq> CHR ''+''" and "c \<noteq> CHR ''-''"
    by auto
qed

lemma parseInt_numToString_decimal:
  assumes "0 \<le> n"
  shows "parseInt (numToString (Finite n) 10) 10 = Finite n"
proof -
  let ?s = "natToString 10 (nat n)"
  have s: "numToString (Finite n) 10 = ?s"
    using assms by (simp add: numToString_def)
  have a: "list_all (isRadixDigit 10) ?s" and ne: "?s \<noteq> []"
    and v: "digitsValue 10 ?s = nat n"
    using natToString_digits [of 10 "nat n"] by simp_all
  from ne obtain c cs where cs: "?s = c # cs" by (cases ?s) auto
  with a have "isRadixDigit 10 c" by simp
  then have c: "\<not> isWhiteSpace c" "c \<noteq> CHR ''+''" "c \<noteq> CHR ''-''"
    by (rule isRadixDigit_plain)+
  have t: "takeWhile (isRadixDigit 10) ?s = ?s"
    using a by (simp add: list_all_iff)
  have "parseInt ?s 10 = Finite (int (digitsValue 10 ?s))"
    unfolding parseInt_def Let_def cs [symmetric]
    using c t ne by (simp add: cs)
  with v s assms show ?thesis by simp
qed

section \<open>The longest zero run\<close>

lemma zerosAt_nth:
  "zerosAt segs k n \<longleftrightarrow>
     k + n \<le> length segs \<and> (\<forall>x. k \<le> x \<and> x < k + n \<longrightarrow> segs ! x = ''0000'')"
proof (cases "k + n \<le> length segs")
  case True
  then have "list_all (\<lambda>g. g = ''0000'') (take n (drop k segs)) \<longleftrightarrow>
      (\<forall>i<n. segs ! (k + i) = ''0000'')"
    by (simp add: list_all_length)
  also have "\<dots> \<longleftrightarrow> (\<forall>x. k \<le> x \<and> x < k + n \<longrightarrow> segs ! x = ''0000'')"
  proof
    assume h: "\<forall>i<n. segs ! (k + i) = ''0000''"
    show "\<forall>x. k \<le> x \<and> x < k + n \<longrightarrow> segs ! x = ''0000''"
    proof (intro allI impI)
      fix x
      assume "k \<le> x \<and> x < k + n"
      then have "x - k < n" and "k + (x - k) = x" by auto
      with h show "segs ! x = ''0000''" by metis
    qed
  next
    assume "\<forall>x. k \<le> x \<and> x < k + n \<longrightarrow> segs ! x = ''0000''"
    then show "\<forall>i<n. segs ! (k + i) = ''0000''" by simp
  qed
  finally show ?thesis using True by (simp add: zerosAt_def)
next
  case False
  then show ?thesis by (simp add: zerosAt_def)
qed

lemma zerosAt_snoc:
  assumes "0 < m"
  shows "zerosAt (pre @ [s]) k m \<longleftrightarrow>
     zerosAt pre k m \<or> (k + m = Suc (length pre) \<and> s = ''0000'' \<and> zerosAt pre k (m - 1))"
proof -
  consider "k + m \<le> length pre" | "k + m = Suc (length pre)" | "Suc (length pre) < k + m"
    by linarith
  then show ?thesis
  proof cases
    case 1
    then show ?thesis by (auto simp add: zerosAt_nth nth_append)
  next
    case 2
    have "(\<forall>x. k \<le> x \<and> x < k + m \<longrightarrow> (pre @ [s]) ! x = ''0000'') \<longleftrightarrow>
        s = ''0000'' \<and> (\<forall>x. k \<le> x \<and> x < k + (m - 1) \<longrightarrow> pre ! x = ''0000'')"
    proof
      assume h: "\<forall>x. k \<le> x \<and> x < k + m \<longrightarrow> (pre @ [s]) ! x = ''0000''"
      have "k \<le> length pre \<and> length pre < k + m" using 2 assms by linarith
      with h have "(pre @ [s]) ! length pre = ''0000''" by blast
      then have "s = ''0000''" by simp
      moreover have "\<forall>x. k \<le> x \<and> x < k + (m - 1) \<longrightarrow> pre ! x = ''0000''"
      proof (intro allI impI)
        fix x
        assume x: "k \<le> x \<and> x < k + (m - 1)"
        then have "x < length pre" using 2 assms by linarith
        moreover from x have "k \<le> x \<and> x < k + m" by linarith
        ultimately show "pre ! x = ''0000''" using h by (metis nth_append)
      qed
      ultimately show "s = ''0000'' \<and> (\<forall>x. k \<le> x \<and> x < k + (m - 1) \<longrightarrow> pre ! x = ''0000'')"
        by simp
    next
      assume h: "s = ''0000'' \<and> (\<forall>x. k \<le> x \<and> x < k + (m - 1) \<longrightarrow> pre ! x = ''0000'')"
      show "\<forall>x. k \<le> x \<and> x < k + m \<longrightarrow> (pre @ [s]) ! x = ''0000''"
      proof (intro allI impI)
        fix x
        assume x: "k \<le> x \<and> x < k + m"
        show "(pre @ [s]) ! x = ''0000''"
        proof (cases "x < length pre")
          case True
          with x 2 have "k \<le> x \<and> x < k + (m - 1)" by linarith
          with h True show ?thesis by (simp add: nth_append)
        next
          case False
          with x 2 have "x = length pre" by linarith
          with h show ?thesis by simp
        qed
      qed
    qed
    moreover have "k + (m - 1) \<le> length pre" and "\<not> k + m \<le> length pre"
      using 2 assms by linarith+
    ultimately show ?thesis using 2 by (simp add: zerosAt_nth)
  next
    case 3
    then show ?thesis by (simp add: zerosAt_nth)
  qed
qed

lemma scanInv_init: "scanInv [] zeroScanInit"
  by (simp add: scanInv_def zeroScanInit_def zerosAt_def)

text \<open>A block of zero groups at the end of \<open>pre\<close> is no longer than the current run.\<close>

lemma scanInv_trailing:
  assumes "scanInv pre st" and "zerosAt pre k j" and "k + j = length pre"
  shows "j \<le> currentZeroLength st"
proof (rule ccontr)
  assume "\<not> j \<le> currentZeroLength st"
  then have lt: "currentZeroLength st < j" by simp
  with assms(3) have c: "currentZeroLength st < length pre" by linarith
  let ?x = "length pre - currentZeroLength st - 1"
  have "k \<le> ?x \<and> ?x < k + j" using lt assms(3) by linarith
  with assms(2) have "pre ! ?x = ''0000''" by (simp add: zerosAt_nth)
  with c assms(1) show False by (simp add: scanInv_def)
qed

lemma zerosAt_empty: "zerosAt segs k 0 \<longleftrightarrow> k \<le> length segs"
  by (simp add: zerosAt_def)

lemma zerosAt_snoc_other:
  "s \<noteq> ''0000'' \<Longrightarrow> 0 < m \<Longrightarrow> zerosAt (pre @ [s]) k m \<longleftrightarrow> zerosAt pre k m"
  by (simp add: zerosAt_snoc)

lemma zerosAt_snoc_mono: "zerosAt pre k m \<Longrightarrow> zerosAt (pre @ [s]) k m"
  by (cases "m = 0") (simp_all add: zerosAt_snoc zerosAt_empty)

lemma scanInv_step_other:
  assumes "scanInv pre st" and "s \<noteq> ''0000''"
  shows "scanInv (pre @ [s]) (zeroScanStep s (length pre) st)"
proof -
  have st': "zeroScanStep s (length pre) st = st\<lparr>currentZeroStart := - 1, currentZeroLength := 0\<rparr>"
    using assms(2) by (simp add: zeroScanStep_def)
  have longest: "\<forall>k m. zerosAt (pre @ [s]) k m \<longrightarrow> m \<le> longestZeroLength st"
  proof (intro allI impI)
    fix k m
    assume "zerosAt (pre @ [s]) k m"
    then show "m \<le> longestZeroLength st"
      using assms by (cases "m = 0") (simp_all add: zerosAt_snoc_other scanInv_def)
  qed
  have first: "longestZeroLength st = 0 \<or>
      0 \<le> longestZeroStart st \<and>
      zerosAt (pre @ [s]) (nat (longestZeroStart st)) (longestZeroLength st) \<and>
      (\<forall>k. zerosAt (pre @ [s]) k (longestZeroLength st) \<longrightarrow> nat (longestZeroStart st) \<le> k)"
  proof (cases "longestZeroLength st = 0")
    case True
    then show ?thesis by simp
  next
    case False
    with assms show ?thesis
      by (simp add: zerosAt_snoc_other scanInv_def)
  qed
  show ?thesis
    unfolding st' using longest first assms(2)
    by (simp add: scanInv_def zerosAt_empty)
qed

lemma scanInv_step_zero:
  assumes "scanInv pre st"
  shows "scanInv (pre @ [''0000'']) (zeroScanStep ''0000'' (length pre) st)"
proof -
  let ?i = "length pre"
  let ?cl = "currentZeroLength st"
  let ?ll = "longestZeroLength st"
  let ?ls = "longestZeroStart st"
  let ?pre' = "pre @ [''0000'']"
  from assms have cl: "?cl \<le> ?i"
    and cur: "zerosAt pre (?i - ?cl) ?cl"
    and stop: "\<not> (?cl < ?i \<and> pre ! (?i - ?cl - 1) = ''0000'')"
    and cs: "currentZeroStart st = (if ?cl = 0 then - 1 else int (?i - ?cl))"
    and longest: "\<And>k m. zerosAt pre k m \<Longrightarrow> m \<le> ?ll"
    and first: "?ll = 0 \<or> 0 \<le> ?ls \<and> zerosAt pre (nat ?ls) ?ll \<and>
        (\<forall>k. zerosAt pre k ?ll \<longrightarrow> nat ?ls \<le> k)"
    by (simp_all add: scanInv_def)
  have cs': "(if currentZeroStart st = - 1 then int ?i else currentZeroStart st) = int (?i - ?cl)"
    using cs cl by (simp split: if_splits)
  have cur': "zerosAt ?pre' (?i - ?cl) (Suc ?cl)"
    using cur cl zerosAt_snoc [of "Suc ?cl" pre "''0000''" "?i - ?cl"] by simp
  have stop': "\<not> (Suc ?cl < Suc ?i \<and> ?pre' ! (Suc ?i - Suc ?cl - 1) = ''0000'')"
    using stop by (auto simp add: nth_append)
  have blocks: "m \<le> max ?ll (Suc ?cl)" if "zerosAt ?pre' k m" for k m
  proof (cases "m = 0")
    case True
    then show ?thesis by simp
  next
    case False
    with that have "zerosAt pre k m \<or> k + m = Suc ?i \<and> zerosAt pre k (m - 1)"
      by (simp add: zerosAt_snoc)
    then show ?thesis
    proof
      assume "zerosAt pre k m"
      then have "m \<le> ?ll" by (rule longest)
      then show ?thesis by simp
    next
      assume h: "k + m = Suc ?i \<and> zerosAt pre k (m - 1)"
      then have "k + (m - 1) = ?i" using False by linarith
      with assms h have "m - 1 \<le> ?cl" by (intro scanInv_trailing [of pre st k]) simp_all
      then show ?thesis by linarith
    qed
  qed
  show ?thesis
  proof (cases "Suc ?cl > ?ll")
    case True
    have st': "zeroScanStep ''0000'' ?i st =
        \<lparr>longestZeroStart = int (?i - ?cl), longestZeroLength = Suc ?cl,
         currentZeroStart = int (?i - ?cl), currentZeroLength = Suc ?cl\<rparr>"
      using True cs' by (simp add: zeroScanStep_def Let_def)
    have l: "\<forall>k m. zerosAt ?pre' k m \<longrightarrow> m \<le> Suc ?cl"
      using blocks True by (metis max.absorb2 less_imp_le)
    have f: "\<forall>k. zerosAt ?pre' k (Suc ?cl) \<longrightarrow> ?i - ?cl \<le> k"
    proof (intro allI impI)
      fix k
      assume "zerosAt ?pre' k (Suc ?cl)"
      then have "zerosAt pre k (Suc ?cl) \<or> k + Suc ?cl = Suc ?i"
        by (auto simp add: zerosAt_snoc)
      then show "?i - ?cl \<le> k"
      proof
        assume "zerosAt pre k (Suc ?cl)"
        then have "Suc ?cl \<le> ?ll" by (rule longest)
        with True show ?thesis by simp
      next
        assume "k + Suc ?cl = Suc ?i"
        then show ?thesis by simp
      qed
    qed
    have n: "nat (int ?i - int ?cl) = ?i - ?cl"
      using cl by linarith
    show ?thesis
      unfolding st' using cl cur' stop' l f by (simp add: scanInv_def n)
  next
    case False
    then have le: "Suc ?cl \<le> ?ll" by simp
    have st': "zeroScanStep ''0000'' ?i st =
        st\<lparr>currentZeroStart := int (?i - ?cl), currentZeroLength := Suc ?cl\<rparr>"
      using False cs' by (simp add: zeroScanStep_def Let_def)
    have l: "\<forall>k m. zerosAt ?pre' k m \<longrightarrow> m \<le> ?ll"
      using blocks le by (metis max.absorb1)
    from le first have ls: "0 \<le> ?ls" and at: "zerosAt pre (nat ?ls) ?ll"
      and left: "\<And>k. zerosAt pre k ?ll \<Longrightarrow> nat ?ls \<le> k"
      by auto
    have at': "zerosAt ?pre' (nat ?ls) ?ll"
      using at by (rule zerosAt_snoc_mono)
    have f: "\<forall>k. zerosAt ?pre' k ?ll \<longrightarrow> nat ?ls \<le> k"
    proof (intro allI impI)
      fix k
      assume "zerosAt ?pre' k ?ll"
      then have "zerosAt pre k ?ll \<or> k + ?ll = Suc ?i"
        using le by (auto simp add: zerosAt_snoc)
      then show "nat ?ls \<le> k"
      proof
        assume "zerosAt pre k ?ll"
        then show ?thesis by (rule left)
      next
        assume "k + ?ll = Suc ?i"
        moreover from at have "nat ?ls + ?ll \<le> ?i" by (simp add: zerosAt_def)
        ultimately show ?thesis by linarith
      qed
    qed
    show ?thesis
      unfolding st' using cl cur' stop' l ls at' f by (simp add: scanInv_def)
  qed
qed

lemma scanInv_step:
  "scanInv pre st \<Longrightarrow> scanInv (pre @ [s]) (zeroScanStep s (length pre) st)"
  by (cases "s = ''0000''") (simp_all add: scanInv_step_zero scanInv_step_other)

lemma scanInv_loop:
  "scanInv pre st \<Longrightarrow> scanInv (pre @ rest) (zeroScanLoop rest (length pre) st)"
proof (induction rest arbitrary: pre st)
  case Nil
  then show ?case by simp
next
  case (Cons s rest)
  from Cons.prems have "scanInv (pre @ [s]) (zeroScanStep s (length pre) st)"
    by (rule scanInv_step)
  then have "scanInv ((pre @ [s]) @ rest) (zeroScanLoop rest (length (pre @ [s])) (zeroScanStep s (length pre) st))"
    by (rule Cons.IH)
  then show ?case by simp
qed

lemma scanInv_final: "scanInv segs (zeroScanLoop segs 0 zeroScanInit)"
  using scanInv_loop [OF scanInv_init, of segs] by simp

text \<open>What the loop has found when it ends.\<close>

lemma loop_longest:
  "zerosAt segs k m \<Longrightarrow> m \<le> longestZeroLength (zeroScanLoop segs 0 zeroScanInit)"
  using scanInv_final [of segs] by (simp add: scanInv_def)

lemma loop_first:
  assumes "0 < longestZeroLength (zeroScanLoop segs 0 zeroScanInit)"
  shows "0 \<le> longestZeroStart (zeroScanLoop segs 0 zeroScanInit)"
    and "zerosAt segs (nat (longestZeroStart (zeroScanLoop segs 0 zeroScanInit)))
           (longestZeroLength (zeroScanLoop segs 0 zeroScanInit))"
    and "zerosAt segs k (longestZeroLength (zeroScanLoop segs 0 zeroScanInit)) \<Longrightarrow>
           nat (longestZeroStart (zeroScanLoop segs 0 zeroScanInit)) \<le> k"
  using scanInv_final [of segs] assms by (simp_all add: scanInv_def)

lemma zerosAt_extend_left:
  assumes "zerosAt segs k m" and "0 < k" and "segs ! (k - 1) = ''0000''"
  shows "zerosAt segs (k - 1) (Suc m)"
proof -
  from assms(1) have le: "k + m \<le> length segs"
    and z: "\<And>x. k \<le> x \<Longrightarrow> x < k + m \<Longrightarrow> segs ! x = ''0000''"
    by (simp_all add: zerosAt_nth)
  have "segs ! x = ''0000''" if "k - 1 \<le> x" and "x < k - 1 + Suc m" for x
  proof (cases "x = k - 1")
    case True
    with assms(3) show ?thesis by simp
  next
    case False
    with that assms(2) have "k \<le> x" and "x < k + m" by linarith+
    then show ?thesis by (rule z)
  qed
  moreover have "k - 1 + Suc m \<le> length segs"
    using le assms(2) by linarith
  ultimately show ?thesis by (simp add: zerosAt_nth)
qed

lemma zerosAt_extend_right:
  assumes "zerosAt segs k m" and "k + m < length segs" and "segs ! (k + m) = ''0000''"
  shows "zerosAt segs k (Suc m)"
proof -
  from assms(1) have z: "\<And>x. k \<le> x \<Longrightarrow> x < k + m \<Longrightarrow> segs ! x = ''0000''"
    by (simp_all add: zerosAt_nth)
  have "segs ! x = ''0000''" if "k \<le> x" and "x < k + Suc m" for x
  proof (cases "x = k + m")
    case True
    with assms(3) show ?thesis by simp
  next
    case False
    with that have "x < k + m" by linarith
    with that(1) show ?thesis by (rule z)
  qed
  moreover have "k + Suc m \<le> length segs"
    using assms(2) by linarith
  ultimately show ?thesis by (simp add: zerosAt_nth)
qed

lemma loop_run:
  assumes "0 < longestZeroLength (zeroScanLoop segs 0 zeroScanInit)"
  shows "zeroRun segs (nat (longestZeroStart (zeroScanLoop segs 0 zeroScanInit)))
           (longestZeroLength (zeroScanLoop segs 0 zeroScanInit))"
proof -
  let ?ls = "nat (longestZeroStart (zeroScanLoop segs 0 zeroScanInit))"
  let ?ll = "longestZeroLength (zeroScanLoop segs 0 zeroScanInit)"
  have at: "zerosAt segs ?ls ?ll" using assms by (rule loop_first)
  have "\<not> (0 < ?ls \<and> segs ! (?ls - 1) = ''0000'')"
  proof
    assume "0 < ?ls \<and> segs ! (?ls - 1) = ''0000''"
    with at have "zerosAt segs (?ls - 1) (Suc ?ll)" by (blast intro: zerosAt_extend_left)
    then have "Suc ?ll \<le> ?ll" by (rule loop_longest)
    then show False by simp
  qed
  moreover have "\<not> (?ls + ?ll < length segs \<and> segs ! (?ls + ?ll) = ''0000'')"
  proof
    assume "?ls + ?ll < length segs \<and> segs ! (?ls + ?ll) = ''0000''"
    with at have "zerosAt segs ?ls (Suc ?ll)" by (blast intro: zerosAt_extend_right)
    then have "Suc ?ll \<le> ?ll" by (rule loop_longest)
    then show False by simp
  qed
  ultimately show ?thesis using assms at by (simp add: zeroRun_def)
qed

text \<open>The loop finds the first of the longest zero runs.\<close>

lemma loop_finds_first_longest_run:
  assumes "zeroRun segs i n"
    and "\<forall>k m. zeroRun segs k m \<longrightarrow> m \<le> n"
    and "\<forall>k. zeroRun segs k n \<longrightarrow> i \<le> k"
  shows "longestZeroLength (zeroScanLoop segs 0 zeroScanInit) = n"
    and "longestZeroStart (zeroScanLoop segs 0 zeroScanInit) = int i"
proof -
  let ?ls = "longestZeroStart (zeroScanLoop segs 0 zeroScanInit)"
  let ?ll = "longestZeroLength (zeroScanLoop segs 0 zeroScanInit)"
  from assms(1) have n: "0 < n" and at: "zerosAt segs i n"
    by (simp_all add: zeroRun_def)
  from at have le: "n \<le> ?ll" by (rule loop_longest)
  with n have pos: "0 < ?ll" by simp
  then have run: "zeroRun segs (nat ?ls) ?ll" by (rule loop_run)
  with assms(2) have "?ll \<le> n" by blast
  with le show ll: "?ll = n" by simp
  from at ll have "nat ?ls \<le> i" using loop_first(3) [OF pos, of i] by simp
  moreover from run ll assms(3) have "i \<le> nat ?ls" by simp
  moreover have "0 \<le> ?ls" using pos by (rule loop_first)
  ultimately show "?ls = int i" by simp
qed

lemma zerosAt_replicate:
  assumes "zerosAt segs k n"
  shows "take n (drop k segs) = replicate n ''0000''"
proof -
  from assms have le: "k + n \<le> length segs"
    and z: "\<forall>g\<in>set (take n (drop k segs)). g = ''0000''"
    by (simp_all add: zerosAt_def list_all_iff)
  from le have "n \<le> length segs - k"
    by linarith
  then have l: "length (take n (drop k segs)) = n"
    by simp
  from z have "replicate (length (take n (drop k segs))) ''0000'' = take n (drop k segs)"
    by (rule replicate_length_same)
  with l show ?thesis by simp
qed

lemma zeroRun_apart:
  assumes "zeroRun segs i n" and "zeroRun segs j n" and "i < j"
  shows "i + n < j"
proof (rule ccontr)
  assume "\<not> i + n < j"
  with assms(3) have r: "j \<le> i + n" "i + n < j + n" by simp_all
  from assms(2) have le: "j + n \<le> length segs"
    and z: "\<And>x. j \<le> x \<Longrightarrow> x < j + n \<Longrightarrow> segs ! x = ''0000''"
    by (simp_all add: zeroRun_def zerosAt_nth)
  from r have "segs ! (i + n) = ''0000''" by (rule z)
  moreover from r le have "i + n < length segs" by simp
  ultimately show False using assms(1) by (simp add: zeroRun_def)
qed

lemma stripZeros_zero_group: "stripZeros ''0000'' = ''0''"
  by (simp add: eval_prim)

lemma not_isHexDigit_colon: "\<not> isHexDigit CHR '':''"
  by (simp add: isHexDigit_iff)

lemma fullGroup_no_colon: "fullGroup g \<Longrightarrow> CHR '':'' \<notin> set g"
  using not_isHexDigit_colon by (auto simp add: fullGroup_def list_all_iff)

lemma slice_take: "0 \<le> i \<Longrightarrow> nat i \<le> length xs \<Longrightarrow> slice xs 0 (Some i) = take (nat i) xs"
  by (simp add: slice_def sliceIndex_def min_def)

lemma slice_drop: "0 \<le> i \<Longrightarrow> slice xs i None = drop (nat i) xs"
  by (simp add: slice_def sliceIndex_def min_def)

text \<open>The result of \<open>compressIPv6Address\<close> on the join of colon free groups.\<close>

lemma compressIPv6Address_joinStr:
  assumes "segs \<noteq> []" and "\<forall>g\<in>set segs. CHR '':'' \<notin> set g"
  shows "compressIPv6Address (joinStr segs '':'') =
    (let st = zeroScanLoop segs 0 zeroScanInit in
     if 2 \<le> longestZeroLength st then
       joinStr (map stripZeros (take (nat (longestZeroStart st)) segs) @ [[]] @
                map stripZeros (drop (nat (longestZeroStart st) + longestZeroLength st) segs)) '':''
     else joinStr (map stripZeros segs) '':'')"
proof -
  let ?st = "zeroScanLoop segs 0 zeroScanInit"
  have s: "splitStr (joinStr segs '':'') '':'' = segs"
    using assms by (rule splitStr_joinStr_single)
  show ?thesis
  proof (cases "2 \<le> longestZeroLength ?st")
    case True
    then have pos: "0 < longestZeroLength ?st" by simp
    have ls: "0 \<le> longestZeroStart ?st" using pos by (rule loop_first)
    have "zerosAt segs (nat (longestZeroStart ?st)) (longestZeroLength ?st)"
      using pos by (rule loop_first)
    then have le: "nat (longestZeroStart ?st) \<le> length segs"
      by (simp add: zerosAt_def)
    have n: "nat (longestZeroStart ?st + int (longestZeroLength ?st)) =
        nat (longestZeroStart ?st) + longestZeroLength ?st"
      using ls by linarith
    show ?thesis
      using True ls le n by (simp add: compressIPv6Address_def s Let_def slice_take slice_drop)
  next
    case False
    then show ?thesis
      by (simp add: compressIPv6Address_def s Let_def)
  qed
qed

lemma expand_2001_db8_1: "expandIPv6Address ''2001:db8::1'' = Inr ''2001:0db8:0000:0000:0000:0000:0000:0001''"
  unfolding eval_expand by (simp add: eval_prim)

lemma chunksHex_zeros129: "chunksHex ''000000000000000000000000000000000000000000000000000000000000000000000000000000000000000000000000000000000000000000000000000000000'' = [''0000'', ''0000'', ''0000'', ''0000'', ''0000'', ''0000'', ''0000'', ''0000'']"
  by (simp add: eval_prim)

lemma chunksHex_ones129: "chunksHex ''111111111111111111111111111111111111111111111111111111111111111111111111111111111111111111111111111111111111111111111111111111111'' = [''ffff'', ''ffff'', ''ffff'', ''ffff'', ''ffff'', ''ffff'', ''ffff'', ''ffff'']"
  by (simp add: eval_prim)

lemma compress_zero_groups: "compressIPv6Address ''0000:0000:0000:0000:0000:0000:0000:0000'' = []"
  unfolding eval_compress by (simp add: eval_prim)

lemma compress_ffff_groups: "compressIPv6Address ''ffff:ffff:ffff:ffff:ffff:ffff:ffff:ffff'' = ''ffff:ffff:ffff:ffff:ffff:ffff:ffff:ffff''"
  unfolding eval_compress by (simp add: eval_prim)

lemma expand_xyz: "expandIPv6Address ''xyz::'' = Inr ''0xyz:0000:0000:0000:0000:0000:0000:0000''"
  unfolding eval_expand by (simp add: eval_prim)

lemma toBinary_xyz: "toBinary ''0xyz:0000:0000:0000:0000:0000:0000:0000'' = ''0000000000000NaN0000000000000000000000000000000000000000000000000000000000000000000000000000000000000000000000000000000000000000''"
  by (simp add: eval_prim)

lemma chunksHex_xyz_network: "chunksHex ''0000000000000NaN0000000000000000000000000000000000000000000000000000000000000000000000000000000000000000000000000000000000000000'' = [''0000'', ''0000'', ''0000'', ''0000'', ''0000'', ''0000'', ''0000'', ''0000'']"
  by (simp add: eval_prim)

lemma chunksHex_xyz_last: "chunksHex ''0000000000000NaN0000000000000000000000000000000000000000000000001111111111111111111111111111111111111111111111111111111111111111'' = [''0000'', ''0000'', ''0000'', ''0000'', ''ffff'', ''ffff'', ''ffff'', ''ffff'']"
  by (simp add: eval_prim)

lemma compress_xyz_last: "compressIPv6Address ''0000:0000:0000:0000:ffff:ffff:ffff:ffff'' = '':ffff:ffff:ffff:ffff''"
  unfolding eval_compress by (simp add: eval_prim)

lemma calculate_negative_prefix:
  "calculateIPv6Subnet ''2001:db8::1'' (- 1) =
     Some \<lparr>networkAddress = [], lastAddress = ''ffff:ffff:ffff:ffff:ffff:ffff:ffff:ffff'', totalAddresses = ''2^129''\<rparr>"
proof -
  let ?x = "''2001:0db8:0000:0000:0000:0000:0000:0001''"
  have "calculateIPv6Subnet ''2001:db8::1'' (- 1) =
    Some \<lparr>networkAddress = compressIPv6Address
             (joinStr (chunksHex (take (nat (- 1)) (toBinary ?x) @ replicate (nat (128 - (- 1))) CHR ''0'')) '':''),
          lastAddress = compressIPv6Address
             (joinStr (chunksHex (take (nat (- 1)) (toBinary ?x) @ replicate (nat (128 - (- 1))) CHR ''1'')) '':''),
          totalAddresses = (if (- 1 :: int) = 128 then ''1'' else ''2^'' @ numToString (Finite (128 - (- 1))) 10)\<rparr>"
    by (rule calculateIPv6Subnet_steps [OF expand_2001_db8_1]) simp_all
  also have "take (nat (- 1)) (toBinary ?x) @ replicate (nat (128 - (- 1))) CHR ''0'' = ''000000000000000000000000000000000000000000000000000000000000000000000000000000000000000000000000000000000000000000000000000000000''"
    by (simp add: replicate_numeral)
  also have "take (nat (- 1)) (toBinary ?x) @ replicate (nat (128 - (- 1))) CHR ''1'' = ''111111111111111111111111111111111111111111111111111111111111111111111111111111111111111111111111111111111111111111111111111111111''"
    by (simp add: replicate_numeral)
  also have "joinStr (chunksHex ''000000000000000000000000000000000000000000000000000000000000000000000000000000000000000000000000000000000000000000000000000000000'') '':'' = ''0000:0000:0000:0000:0000:0000:0000:0000''"
    by (simp add: chunksHex_zeros129)
  also have "joinStr (chunksHex ''111111111111111111111111111111111111111111111111111111111111111111111111111111111111111111111111111111111111111111111111111111111'') '':'' = ''ffff:ffff:ffff:ffff:ffff:ffff:ffff:ffff''"
    by (simp add: chunksHex_ones129)
  also have "numToString (Finite (128 - (- 1))) 10 = ''129''"
    by (simp add: eval_prim)
  finally show ?thesis
    by (simp add: compress_zero_groups compress_ffff_groups)
qed

lemma calculate_xyz:
  "calculateIPv6Subnet ''xyz::'' 64 =
     Some \<lparr>networkAddress = [], lastAddress = '':ffff:ffff:ffff:ffff'', totalAddresses = ''2^64''\<rparr>"
proof -
  let ?x = "''0xyz:0000:0000:0000:0000:0000:0000:0000''"
  have "calculateIPv6Subnet ''xyz::'' 64 =
    Some \<lparr>networkAddress = compressIPv6Address
             (joinStr (chunksHex (take (nat 64) (toBinary ?x) @ replicate (nat (128 - 64)) CHR ''0'')) '':''),
          lastAddress = compressIPv6Address
             (joinStr (chunksHex (take (nat 64) (toBinary ?x) @ replicate (nat (128 - 64)) CHR ''1'')) '':''),
          totalAddresses = (if (64 :: int) = 128 then ''1'' else ''2^'' @ numToString (Finite (128 - 64)) 10)\<rparr>"
    by (rule calculateIPv6Subnet_steps [OF expand_xyz]) simp_all
  also have "take (nat 64) (toBinary ?x) @ replicate (nat (128 - 64)) CHR ''0'' = ''0000000000000NaN0000000000000000000000000000000000000000000000000000000000000000000000000000000000000000000000000000000000000000''"
    by (simp add: toBinary_xyz replicate_numeral)
  also have "take (nat 64) (toBinary ?x) @ replicate (nat (128 - 64)) CHR ''1'' = ''0000000000000NaN0000000000000000000000000000000000000000000000001111111111111111111111111111111111111111111111111111111111111111''"
    by (simp add: toBinary_xyz replicate_numeral)
  also have "joinStr (chunksHex ''0000000000000NaN0000000000000000000000000000000000000000000000000000000000000000000000000000000000000000000000000000000000000000'') '':'' = ''0000:0000:0000:0000:0000:0000:0000:0000''"
    by (simp add: chunksHex_xyz_network)
  also have "joinStr (chunksHex ''0000000000000NaN0000000000000000000000000000000000000000000000001111111111111111111111111111111111111111111111111111111111111111'') '':'' = ''0000:0000:0000:0000:ffff:ffff:ffff:ffff''"
    by (simp add: chunksHex_xyz_last)
  also have "numToString (Finite (128 - 64)) 10 = ''64''"
    by (simp add: eval_prim)
  finally show ?thesis
    by (simp add: compress_zero_groups compress_xyz_last)
qed

section \<open>The claims\<close>

text \<open>
  C1. For the address \<open>2001:db8::\<close> and the prefix length 64 the specification expects the
  network address \<open>2001:db8::\<close> and the total \<open>2^64\<close>. The code returns the total \<open>2^64\<close>, but
  the network address \<open>2001:db8:\<close>, with one colon at the end: the zero run that is
  compressed reaches the end of the address, so \<open>after\<close> is empty and the join of
  \<open>[...before, '']\<close> ends in a single colon.
\<close>

theorem calculateIPv6Subnet_2001_db8_64:
  "calculateIPv6Subnet ''2001:db8::'' 64 =
     Some \<lparr>networkAddress = ''2001:db8:'',
           lastAddress = ''2001:db8::ffff:ffff:ffff:ffff'',
           totalAddresses = ''2^64''\<rparr>"
proof -
  have "calculateIPv6Subnet ''2001:db8::'' 64 =
    Some \<lparr>networkAddress = compressIPv6Address
             (joinStr (chunksHex (take (nat 64) (toBinary ''2001:0db8:0000:0000:0000:0000:0000:0000'') @ replicate (nat (128 - 64)) CHR ''0'')) '':''),
          lastAddress = compressIPv6Address
             (joinStr (chunksHex (take (nat 64) (toBinary ''2001:0db8:0000:0000:0000:0000:0000:0000'') @ replicate (nat (128 - 64)) CHR ''1'')) '':''),
          totalAddresses = (if (64::int) = 128 then ''1'' else ''2^'' @ numToString (Finite (128 - 64)) 10)\<rparr>"
    by (rule calculateIPv6Subnet_steps [OF expand_2001_db8]) simp_all
  also have "take (nat 64) (toBinary ''2001:0db8:0000:0000:0000:0000:0000:0000'') @ replicate (nat (128 - 64)) CHR ''0'' = ''00100000000000010000110110111000000000000000000000000000000000000000000000000000000000000000000000000000000000000000000000000000''"
    by (simp add: toBinary_2001_db8 replicate_numeral)
  also have "take (nat 64) (toBinary ''2001:0db8:0000:0000:0000:0000:0000:0000'') @ replicate (nat (128 - 64)) CHR ''1'' = ''00100000000000010000110110111000000000000000000000000000000000001111111111111111111111111111111111111111111111111111111111111111''"
    by (simp add: toBinary_2001_db8 replicate_numeral)
  also have "joinStr (chunksHex ''00100000000000010000110110111000000000000000000000000000000000000000000000000000000000000000000000000000000000000000000000000000'') '':'' = ''2001:0db8:0000:0000:0000:0000:0000:0000''"
    by (simp add: chunksHex_2001_db8_network)
  also have "joinStr (chunksHex ''00100000000000010000110110111000000000000000000000000000000000001111111111111111111111111111111111111111111111111111111111111111'') '':'' = ''2001:0db8:0000:0000:ffff:ffff:ffff:ffff''"
    by (simp add: chunksHex_2001_db8_last)
  also have "numToString (Finite (128 - 64)) 10 = ''64''"
    by (simp add: eval_prim)
  finally show ?thesis
    by (simp add: compress_2001_db8_network compress_2001_db8_last)
qed

text \<open>
  C2. For 8 full groups whose longest zero run has at least 2 groups, the specification
  expects \<open>::\<close> at the position of the run. The code produces \<open>::\<close> only for a run with
  groups on both sides. A run at the start leaves one leading colon, a run at the end one
  trailing colon, and the address of 8 zero groups becomes the empty text.
\<close>

theorem compressIPv6Address_run_at_an_end:
  "compressIPv6Address ''0000:0000:0000:0000:0000:0000:0000:0001'' = '':1'' \<and>
   compressIPv6Address ''0001:0000:0000:0000:0000:0000:0000:0000'' = ''1:'' \<and>
   compressIPv6Address ''0000:0000:0000:0000:0000:0000:0000:0000'' = []"
  unfolding eval_compress by (simp add: eval_prim)

text \<open>
  C3, as the code has it. \<open>calculateIPv6Subnet\<close> returns \<open>null\<close> for a prefix length above
  128, for the empty text, for a text with more than one \<open>::\<close> and for a text with more
  than 8 groups, and every fault thrown in its body becomes \<open>null\<close>. It does not check a
  negative prefix length or the characters of the groups: the component does, which sets
  an error and no results for a text that \<open>isValidIPv6Address\<close> rejects and for a prefix
  length text that does not parse to a number from 0 to 128.
\<close>

theorem calculateIPv6Subnet_null_cases:
  "(128 < p \<longrightarrow> calculateIPv6Subnet a p = None) \<and>
   (a = [] \<or> 1 < matchDoubleColon a \<longrightarrow> calculateIPv6Subnet a p = None) \<and>
   (8 < length (groupsOf (at (splitStr a ''::'') 0)) + length (groupsOf (at (splitStr a ''::'') 1))
      \<longrightarrow> calculateIPv6Subnet a p = None) \<and>
   (\<forall>e. tryCalculate a p = Inl e \<longrightarrow> calculateIPv6Subnet a p = None) \<and>
   (ipAddress \<noteq> [] \<and> prefixLength \<noteq> [] \<and>
    (\<not> isValidIPv6Address ipAddress \<or> parseInt prefixLength 10 = NaN \<or>
     (\<exists>n. parseInt prefixLength 10 = Finite n \<and> (n < 0 \<or> 128 < n)))
      \<longrightarrow> results (ipv6Effect ipAddress prefixLength st) = None \<and>
          error (ipv6Effect ipAddress prefixLength st) \<noteq> None)"
proof (intro conjI impI allI)
  assume "128 < p"
  then show "calculateIPv6Subnet a p = None"
    by (simp add: calculateIPv6Subnet_def tryCalculate_def repeatStr_def Let_def
        split: sum.splits)
next
  assume "a = [] \<or> 1 < matchDoubleColon a"
  then have "expandIPv6Address a = Inr []"
    by (auto simp add: expandIPv6Address_def length_splitStr_dc Let_def)
  then show "calculateIPv6Subnet a p = None"
    by (simp add: calculateIPv6Subnet_def tryCalculate_def)
next
  assume "8 < length (groupsOf (at (splitStr a ''::'') 0)) + length (groupsOf (at (splitStr a ''::'') 1))"
  then have "expandIPv6Address a = Inr [] \<or> expandIPv6Address a = Inl RangeError"
    by (simp add: expandIPv6Address_def arrayFill_def Let_def)
  then show "calculateIPv6Subnet a p = None"
    by (auto simp add: calculateIPv6Subnet_def tryCalculate_def)
next
  fix e
  assume "tryCalculate a p = Inl e"
  then show "calculateIPv6Subnet a p = None"
    by (simp add: calculateIPv6Subnet_def)
next
  assume h: "ipAddress \<noteq> [] \<and> prefixLength \<noteq> [] \<and>
    (\<not> isValidIPv6Address ipAddress \<or> parseInt prefixLength 10 = NaN \<or>
     (\<exists>n. parseInt prefixLength 10 = Finite n \<and> (n < 0 \<or> 128 < n)))"
  then show "results (ipv6Effect ipAddress prefixLength st) = None"
    by (auto simp add: ipv6Effect_def split: jsnum.splits)
  from h show "error (ipv6Effect ipAddress prefixLength st) \<noteq> None"
    by (auto simp add: ipv6Effect_def split: jsnum.splits)
qed

lemma expand_nine_groups: "expandIPv6Address ''1:2:3:4:5:6:7:8:9'' = Inl RangeError"
  unfolding eval_expand by (simp add: eval_prim)

lemma groups_nine:
  "length (groupsOf (at (splitStr ''1:2:3:4:5:6:7:8:9'' ''::'') 0)) +
   length (groupsOf (at (splitStr ''1:2:3:4:5:6:7:8:9'' ''::'') 1)) = 9"
  by (simp add: eval_prim)

lemma tryCalculate_nine_groups: "tryCalculate ''1:2:3:4:5:6:7:8:9'' 64 = Inl RangeError"
  by (simp add: tryCalculate_def expand_nine_groups)

lemma not_valid_xyz: "\<not> isValidIPv6Address ''xyz::''"
  unfolding eval_isValid by (simp add: eval_prim)

lemma valid_loopback: "isValidIPv6Address ''::1''"
  unfolding eval_isValid by (simp add: eval_prim)

lemma parseInt_minus_one: "parseInt ''-1'' 10 = Finite (- 1)"
  by (simp add: eval_prim)

theorem calculateIPv6Subnet_null_cases_witness:
  "calculateIPv6Subnet ''::1'' 129 = None \<and>
   calculateIPv6Subnet [] 64 = None \<and>
   calculateIPv6Subnet ''1::2::3'' 64 = None \<and>
   calculateIPv6Subnet ''1:2:3:4:5:6:7:8:9'' 64 = None \<and>
   results (ipv6Effect ''xyz::'' ''64'' \<lparr>results = None, error = None\<rparr>) = None \<and>
   error (ipv6Effect ''xyz::'' ''64'' \<lparr>results = None, error = None\<rparr>) \<noteq> None \<and>
   results (ipv6Effect ''::1'' ''-1'' \<lparr>results = None, error = None\<rparr>) = None \<and>
   error (ipv6Effect ''::1'' ''-1'' \<lparr>results = None, error = None\<rparr>) \<noteq> None"
proof -
  have 1: "calculateIPv6Subnet ''::1'' 129 = None"
    using calculateIPv6Subnet_null_cases [of 129 "''::1''"] by simp
  have 2: "calculateIPv6Subnet [] 64 = None"
    using calculateIPv6Subnet_null_cases [of 64 "[]"] by simp
  have 3: "calculateIPv6Subnet ''1::2::3'' 64 = None"
    using calculateIPv6Subnet_null_cases [of 64 "''1::2::3''"] by simp
  have 4: "calculateIPv6Subnet ''1:2:3:4:5:6:7:8:9'' 64 = None"
    using calculateIPv6Subnet_null_cases [of 64 "''1:2:3:4:5:6:7:8:9''"] groups_nine
      tryCalculate_nine_groups by simp
  have 5: "results (ipv6Effect ''xyz::'' ''64'' \<lparr>results = None, error = None\<rparr>) = None \<and>
      error (ipv6Effect ''xyz::'' ''64'' \<lparr>results = None, error = None\<rparr>) \<noteq> None"
    using calculateIPv6Subnet_null_cases [of _ _ "''xyz::''" "''64''"] not_valid_xyz by simp
  have 6: "results (ipv6Effect ''::1'' ''-1'' \<lparr>results = None, error = None\<rparr>) = None \<and>
      error (ipv6Effect ''::1'' ''-1'' \<lparr>results = None, error = None\<rparr>) \<noteq> None"
    using calculateIPv6Subnet_null_cases [of _ _ "''::1''" "''-1''"] parseInt_minus_one by simp
  from 1 2 3 4 5 6 show ?thesis by simp
qed

text \<open>
  C3 as stated fails: a negative prefix length and a text that is no IPv6 address both get a
  result from \<open>calculateIPv6Subnet\<close>.
\<close>

theorem calculateIPv6Subnet_not_null_counterexample:
  "calculateIPv6Subnet ''2001:db8::1'' (- 1) =
     Some \<lparr>networkAddress = [],
           lastAddress = ''ffff:ffff:ffff:ffff:ffff:ffff:ffff:ffff'',
           totalAddresses = ''2^129''\<rparr> \<and>
   \<not> isValidIPv6Address ''xyz::'' \<and>
   calculateIPv6Subnet ''xyz::'' 64 =
     Some \<lparr>networkAddress = [], lastAddress = '':ffff:ffff:ffff:ffff'', totalAddresses = ''2^64''\<rparr>"
  using calculate_negative_prefix calculate_xyz not_valid_xyz by simp

text \<open>
  C4, as the code has it. \<open>expandIPv6Address\<close> returns the empty text for the empty text and
  for a text with more than one \<open>::\<close>. For any other text with at most 8 groups before and
  after the \<open>::\<close> together it returns 8 colon-joined groups: the groups before, padded with
  zeros on the left, the missing zero groups, and the padded groups after. It does not
  check the text: for every text that \<open>isValidIPv6Address\<close> accepts, taken without the
  surrounding white space, each of the 8 groups is exactly 4 hexadecimal digits, in the
  letter case of the text.
\<close>

theorem expandIPv6Address_groups:
  "expandIPv6Address [] = Inr [] \<and>
   (1 < matchDoubleColon a \<longrightarrow> expandIPv6Address a = Inr []) \<and>
   (a \<noteq> [] \<and> matchDoubleColon a \<le> 1 \<and> length (groupsBefore a) + length (groupsAfter a) \<le> 8
      \<longrightarrow> expandIPv6Address a = Inr (joinStr (expandedGroups a) '':'') \<and>
          length (expandedGroups a) = 8) \<and>
   (isValidIPv6Address a
      \<longrightarrow> expandIPv6Address (trimStr a) = Inr (joinStr (expandedGroups (trimStr a)) '':'') \<and>
          length (expandedGroups (trimStr a)) = 8 \<and>
          list_all fullGroup (expandedGroups (trimStr a)))"
proof (intro conjI impI)
  show "expandIPv6Address [] = Inr []"
    by (simp add: expandIPv6Address_def)
next
  assume "1 < matchDoubleColon a"
  then show "expandIPv6Address a = Inr []"
    by (simp add: expandIPv6Address_def length_splitStr_dc Let_def)
next
  assume h: "a \<noteq> [] \<and> matchDoubleColon a \<le> 1 \<and>
    length (groupsBefore a) + length (groupsAfter a) \<le> 8"
  then show "expandIPv6Address a = Inr (joinStr (expandedGroups a) '':'')"
    by (intro expandIPv6Address_expandedGroups) simp_all
  from h show "length (expandedGroups a) = 8"
    by (intro expandIPv6Address_expandedGroups) simp_all
next
  assume v: "isValidIPv6Address a"
  note t = valid_trimmed_groups [OF v]
  show "expandIPv6Address (trimStr a) = Inr (joinStr (expandedGroups (trimStr a)) '':'')"
    using t(1,2,3) by (rule expandIPv6Address_expandedGroups)
  show "length (expandedGroups (trimStr a)) = 8"
    using t(1,2,3) by (rule expandIPv6Address_expandedGroups)
  show "list_all fullGroup (expandedGroups (trimStr a))"
    using v by (rule valid_groups_full)
qed

lemma valid_upper_case: "isValidIPv6Address ''ABCD::''"
  unfolding eval_isValid by (simp add: eval_prim)

lemma expandedGroups_upper_case:
  "expandedGroups (trimStr ''ABCD::'') =
     [''ABCD'', ''0000'', ''0000'', ''0000'', ''0000'', ''0000'', ''0000'', ''0000'']"
  by (simp add: expandedGroups_def groupsBefore_def groupsAfter_def eval_prim)

lemma matchDoubleColon_two: "matchDoubleColon ''2001::db8::1'' = 2"
  by simp

lemma groups_three:
  "matchDoubleColon ''1:2:3'' \<le> 1 \<and>
   length (groupsBefore ''1:2:3'') + length (groupsAfter ''1:2:3'') \<le> 8"
  by (simp add: groupsBefore_def groupsAfter_def eval_prim)

lemma expandedGroups_three:
  "expandedGroups ''1:2:3'' =
     [''0001'', ''0002'', ''0003'', ''0000'', ''0000'', ''0000'', ''0000'', ''0000'']"
  by (simp add: expandedGroups_def groupsBefore_def groupsAfter_def eval_prim)

theorem expandIPv6Address_groups_witness:
  "expandIPv6Address ''2001::db8::1'' = Inr [] \<and>
   expandIPv6Address ''1:2:3'' = Inr ''0001:0002:0003:0000:0000:0000:0000:0000'' \<and>
   expandIPv6Address (trimStr ''ABCD::'') = Inr ''ABCD:0000:0000:0000:0000:0000:0000:0000'' \<and>
   list_all fullGroup
     [''ABCD'', ''0000'', ''0000'', ''0000'', ''0000'', ''0000'', ''0000'', ''0000'']"
proof -
  have "expandIPv6Address ''2001::db8::1'' = Inr []"
    using expandIPv6Address_groups [of "''2001::db8::1''"] matchDoubleColon_two by simp
  moreover have "expandIPv6Address (trimStr ''ABCD::'') = Inr ''ABCD:0000:0000:0000:0000:0000:0000:0000'' \<and>
      list_all fullGroup
        [''ABCD'', ''0000'', ''0000'', ''0000'', ''0000'', ''0000'', ''0000'', ''0000'']"
    using expandIPv6Address_groups [of "''ABCD::''"] valid_upper_case expandedGroups_upper_case
    by simp
  moreover have "expandIPv6Address ''1:2:3'' = Inr ''0001:0002:0003:0000:0000:0000:0000:0000''"
    using expandIPv6Address_groups [of "''1:2:3''"] groups_three expandedGroups_three by simp
  ultimately show ?thesis by simp
qed

text \<open>
  C4 as stated fails: the expansion of an accepted text keeps its upper case letters, and a
  text that is rejected for having 3 groups and no \<open>::\<close> is expanded to 8 groups, not to
  the empty text.
\<close>

theorem expandIPv6Address_counterexample:
  "isValidIPv6Address ''ABCD::'' \<and>
   expandIPv6Address ''ABCD::'' = Inr ''ABCD:0000:0000:0000:0000:0000:0000:0000'' \<and>
   \<not> lowerHexGroup ''ABCD'' \<and>
   \<not> isValidIPv6Address ''1:2:3'' \<and>
   expandIPv6Address ''1:2:3'' = Inr ''0001:0002:0003:0000:0000:0000:0000:0000''"
proof -
  have "expandIPv6Address ''ABCD::'' = Inr ''ABCD:0000:0000:0000:0000:0000:0000:0000''"
    unfolding eval_expand by (simp add: eval_prim)
  moreover have "\<not> lowerHexGroup ''ABCD''"
    by (simp add: lowerHexGroup_def)
  moreover have "\<not> isValidIPv6Address ''1:2:3''"
    unfolding eval_isValid by (simp add: eval_prim)
  moreover have "expandIPv6Address ''1:2:3'' = Inr ''0001:0002:0003:0000:0000:0000:0000:0000''"
    unfolding eval_expand by (simp add: eval_prim)
  ultimately show ?thesis using valid_upper_case by simp
qed

text \<open>
  C5, as the code has it. \<open>isValidIPv6Address\<close> removes the white space around the text
  first, and accepts the text exactly when the trimmed text is valid in the words of the
  specification. The text \<open>2001::db8::1\<close>, with two \<open>::\<close>, is rejected.
\<close>

theorem isValidIPv6Address_specValid:
  "(isValidIPv6Address a \<longleftrightarrow> specValid (trimStr a)) \<and>
   \<not> isValidIPv6Address ''2001::db8::1'' \<and> matchDoubleColon ''2001::db8::1'' = 2"
proof -
  let ?t = "trimStr a"
  have s: "list_all segmentOk (splitStr ?t '':'') =
      list_all (\<lambda>g. g = [] \<or> specHexGroup g) (splitStr ?t '':'')"
    by (simp add: list_all_iff segmentOk_iff)
  have e: "a = [] \<Longrightarrow> \<not> specValid ?t"
    by (simp add: specValid_def trimStr_def)
  have g: "matchDoubleColon ?t = 1 \<Longrightarrow>
      length (groupsOf (at (splitStr ?t ''::'') 0)) + length (groupsOf (at (splitStr ?t ''::'') 1)) =
      length (specGroups (hd (splitStr ?t ''::''))) + length (specGroups (hd (tl (splitStr ?t ''::''))))"
  proof -
    assume "matchDoubleColon ?t = 1"
    then obtain p0 p1 where "splitStr ?t ''::'' = [p0, p1]"
      by (blast elim: splitStr_dc_pair)
    then show ?thesis by (simp add: at_def groupsOf_def specGroups_def)
  qed
  have "isValidIPv6Address a \<longleftrightarrow> specValid ?t"
  proof (cases "a = []")
    case True
    with e show ?thesis by (simp add: isValidIPv6Address_def)
  next
    case False
    show ?thesis
    proof (cases "matchDoubleColon ?t = 1")
      case True
      with False g s show ?thesis
        by (simp add: isValidIPv6Address_iff specValid_def)
    next
      case False
      with \<open>a \<noteq> []\<close> s show ?thesis
        by (auto simp add: isValidIPv6Address_iff specValid_def)
    qed
  qed
  moreover have "\<not> isValidIPv6Address ''2001::db8::1''"
    unfolding eval_isValid by (simp add: eval_prim)
  ultimately show ?thesis by simp
qed

text \<open>
  C5 as stated fails for a text with white space around it: \<open>isValidIPv6Address\<close> accepts
  \<open> ::1\<close>, whose first group, a space, is not empty and has no hexadecimal digit.
\<close>

theorem isValidIPv6Address_counterexample:
  "isValidIPv6Address '' ::1'' \<and> \<not> specValid '' ::1'' \<and>
   splitStr '' ::1'' '':'' = ['' '', [], ''1''] \<and> \<not> specHexGroup '' ''"
proof -
  have "isValidIPv6Address '' ::1''"
    unfolding eval_isValid by (simp add: eval_prim)
  moreover have "\<not> specHexGroup '' ''"
    by (simp add: specHexGroup_def)
  moreover have "splitStr '' ::1'' '':'' = ['' '', [], ''1'']"
    by simp
  ultimately show ?thesis
    by (simp add: specValid_def)
qed

text \<open>
  C6. On the example the round trip holds: \<open>2001:db8::1\<close> expands to 8 full groups, and
  the expansion compresses back to \<open>2001:db8::1\<close>. The round trip of a parsed address that
  the claim draws from it, that the compressed text denotes the same 128 bits, is what the
  specification expects, and the code breaks it for an address whose longest zero run
  touches an end: \<open>::1\<close> is accepted and expands to \<open>0000:0000:0000:0000:0000:0000:0000:0001\<close>,
  which compresses to \<open>:1\<close>, with one colon; \<open>:1\<close> is not accepted, and it expands to
  another address, with other bits.
\<close>

theorem expand_compress_round_trip:
  "expandIPv6Address ''2001:db8::1'' = Inr ''2001:0db8:0000:0000:0000:0000:0000:0001'' \<and>
   compressIPv6Address ''2001:0db8:0000:0000:0000:0000:0000:0001'' = ''2001:db8::1'' \<and>
   isValidIPv6Address ''::1'' \<and>
   expandIPv6Address ''::1'' = Inr ''0000:0000:0000:0000:0000:0000:0000:0001'' \<and>
   compressIPv6Address ''0000:0000:0000:0000:0000:0000:0000:0001'' = '':1'' \<and>
   \<not> isValidIPv6Address '':1'' \<and>
   expandIPv6Address '':1'' = Inr ''0000:0001:0000:0000:0000:0000:0000:0000'' \<and>
   toBinary ''0000:0000:0000:0000:0000:0000:0000:0001'' =
     ''00000000000000000000000000000000000000000000000000000000000000000000000000000000000000000000000000000000000000000000000000000001'' \<and>
   toBinary ''0000:0001:0000:0000:0000:0000:0000:0000'' =
     ''00000000000000000000000000000001000000000000000000000000000000000000000000000000000000000000000000000000000000000000000000000000''"
proof -
  have "expandIPv6Address ''2001:db8::1'' = Inr ''2001:0db8:0000:0000:0000:0000:0000:0001''"
    unfolding eval_expand by (simp add: eval_prim)
  moreover have "compressIPv6Address ''2001:0db8:0000:0000:0000:0000:0000:0001'' = ''2001:db8::1''"
    unfolding eval_compress by (simp add: eval_prim)
  moreover have "expandIPv6Address ''::1'' = Inr ''0000:0000:0000:0000:0000:0000:0000:0001''"
    unfolding eval_expand by (simp add: eval_prim)
  moreover have "compressIPv6Address ''0000:0000:0000:0000:0000:0000:0000:0001'' = '':1''"
    unfolding eval_compress by (simp add: eval_prim)
  moreover have "\<not> isValidIPv6Address '':1''"
    unfolding eval_isValid by (simp add: eval_prim)
  moreover have "expandIPv6Address '':1'' = Inr ''0000:0001:0000:0000:0000:0000:0000:0000''"
    unfolding eval_expand by (simp add: eval_prim)
  moreover have "toBinary ''0000:0000:0000:0000:0000:0000:0000:0001'' =
     ''00000000000000000000000000000000000000000000000000000000000000000000000000000000000000000000000000000000000000000000000000000001''"
    by (simp add: eval_prim)
  moreover have "toBinary ''0000:0001:0000:0000:0000:0000:0000:0000'' =
     ''00000000000000000000000000000001000000000000000000000000000000000000000000000000000000000000000000000000000000000000000000000000''"
    by (simp add: eval_prim)
  ultimately show ?thesis using valid_loopback by simp
qed

text \<open>
  C7, as the code has it. Among 8 full groups with two zero runs of the maximal length
  \<open>n\<close>, the first at \<open>i\<close> and a later one at \<open>j\<close>, the later run lies after the first with
  a group between them. When \<open>n\<close> is at least 2 and the first run does not start the
  address, the first run is compressed: the text is the groups before it, \<open>::\<close>, and the
  groups after it, all rendered without leading zeros, and the groups of the later run are
  among the groups after it, each rendered as \<open>0\<close>. When \<open>n\<close> is 1 no run is compressed.
  Nothing is stated for a first run of at least 2 groups that starts the address.
\<close>

theorem compressIPv6Address_first_run:
  assumes "length segs = 8" and "list_all fullGroup segs"
    and "zeroRun segs i n" and "zeroRun segs j n" and "i < j"
    and "\<forall>k m. zeroRun segs k m \<longrightarrow> m \<le> n"
    and "\<forall>k. zeroRun segs k n \<longrightarrow> i \<le> k"
  shows "i + n < j \<and>
         (if 2 \<le> n
          then 0 < i \<longrightarrow>
               compressIPv6Address (joinStr segs '':'') =
                 joinStr (map stripZeros (take i segs)) '':'' @ ''::'' @
                 joinStr (map stripZeros (drop (i + n) segs)) '':'' \<and>
               take n (drop (j - (i + n)) (map stripZeros (drop (i + n) segs))) =
                 replicate n ''0''
          else compressIPv6Address (joinStr segs '':'') = joinStr (map stripZeros segs) '':'')"
proof -
  have ne: "segs \<noteq> []" using assms(1) by auto
  have free: "\<forall>g\<in>set segs. CHR '':'' \<notin> set g"
    using assms(2) by (simp add: list_all_iff fullGroup_no_colon)
  have ll: "longestZeroLength (zeroScanLoop segs 0 zeroScanInit) = n"
    using assms(3,6,7) by (rule loop_finds_first_longest_run)
  have ls: "longestZeroStart (zeroScanLoop segs 0 zeroScanInit) = int i"
    using assms(3,6,7) by (rule loop_finds_first_longest_run)
  have c: "compressIPv6Address (joinStr segs '':'') =
      (if 2 \<le> n
       then joinStr (map stripZeros (take i segs) @ [[]] @
                     map stripZeros (drop (i + n) segs)) '':''
       else joinStr (map stripZeros segs) '':'')"
    using compressIPv6Address_joinStr [OF ne free] by (simp add: ll ls Let_def)
  have apart: "i + n < j"
    using assms(3,4,5) by (rule zeroRun_apart)
  from assms(4) have at: "zerosAt segs j n" by (simp add: zeroRun_def)
  then have "j + n \<le> length segs" by (simp add: zerosAt_def)
  with apart have after: "map stripZeros (drop (i + n) segs) \<noteq> []" by simp
  from at have "take n (drop j segs) = replicate n ''0000''"
    by (rule zerosAt_replicate)
  then have "map stripZeros (take n (drop j segs)) = replicate n ''0''"
    by (simp add: stripZeros_zero_group)
  moreover have "take n (drop (j - (i + n)) (map stripZeros (drop (i + n) segs))) =
      map stripZeros (take n (drop j segs))"
    using apart by (simp add: drop_map take_map)
  ultimately have later:
    "take n (drop (j - (i + n)) (map stripZeros (drop (i + n) segs))) = replicate n ''0''"
    by simp
  have "compressIPv6Address (joinStr segs '':'') =
      joinStr (map stripZeros (take i segs)) '':'' @ ''::'' @
      joinStr (map stripZeros (drop (i + n) segs)) '':''"
    if "2 \<le> n" and "0 < i"
  proof -
    from that(2) ne have "map stripZeros (take i segs) \<noteq> []" by simp
    then have "joinStr (map stripZeros (take i segs) @ [[]] @
        map stripZeros (drop (i + n) segs)) '':'' =
      joinStr (map stripZeros (take i segs)) '':'' @ '':'' @ '':'' @
      joinStr (map stripZeros (drop (i + n) segs)) '':''"
      using after by (rule joinStr_empty_token)
    with c that(1) show ?thesis by simp
  qed
  with c apart later show ?thesis by simp
qed

lemma zeroRun_example_first:
  "zeroRun [''0001'', ''0000'', ''0000'', ''0002'', ''0000'', ''0000'', ''0003'', ''0004''] 1 2"
  by (simp add: zeroRun_def zerosAt_def)

lemma zeroRun_example_later:
  "zeroRun [''0001'', ''0000'', ''0000'', ''0002'', ''0000'', ''0000'', ''0003'', ''0004''] 4 2"
  by (simp add: zeroRun_def zerosAt_def)

lemma zeroScanLoop_example:
  "zeroScanLoop [''0001'', ''0000'', ''0000'', ''0002'', ''0000'', ''0000'', ''0003'', ''0004'']
     0 zeroScanInit =
   \<lparr>longestZeroStart = 1, longestZeroLength = 2, currentZeroStart = - 1, currentZeroLength = 0\<rparr>"
  by (simp add: eval_prim)

lemma fullGroup_example:
  "list_all fullGroup
     [''0001'', ''0000'', ''0000'', ''0002'', ''0000'', ''0000'', ''0003'', ''0004'']"
  by (simp add: fullGroup_def isHexDigit_iff)

theorem compressIPv6Address_first_run_witness:
  "compressIPv6Address ''0001:0000:0000:0002:0000:0000:0003:0004'' = ''1::2:0:0:3:4''"
proof -
  let ?segs = "[''0001'', ''0000'', ''0000'', ''0002'', ''0000'', ''0000'', ''0003'', ''0004'']"
  have longest: "\<forall>k m. zeroRun ?segs k m \<longrightarrow> m \<le> 2"
  proof (intro allI impI)
    fix k m
    assume "zeroRun ?segs k m"
    then have "zerosAt ?segs k m" by (simp add: zeroRun_def)
    then have "m \<le> longestZeroLength (zeroScanLoop ?segs 0 zeroScanInit)"
      by (rule loop_longest)
    then show "m \<le> 2" unfolding zeroScanLoop_example by simp
  qed
  have first: "\<forall>k. zeroRun ?segs k 2 \<longrightarrow> 1 \<le> k"
  proof (intro allI impI)
    fix k
    assume "zeroRun ?segs k 2"
    then have "zerosAt ?segs k (longestZeroLength (zeroScanLoop ?segs 0 zeroScanInit))"
      unfolding zeroScanLoop_example by (simp add: zeroRun_def)
    moreover have "0 < longestZeroLength (zeroScanLoop ?segs 0 zeroScanInit)"
      unfolding zeroScanLoop_example by simp
    ultimately have "nat (longestZeroStart (zeroScanLoop ?segs 0 zeroScanInit)) \<le> k"
      by (intro loop_first)
    then show "1 \<le> k" unfolding zeroScanLoop_example by simp
  qed
  have "compressIPv6Address (joinStr ?segs '':'') =
      joinStr (map stripZeros (take 1 ?segs)) '':'' @ ''::'' @
      joinStr (map stripZeros (drop (1 + 2) ?segs)) '':''"
    using compressIPv6Address_first_run [of ?segs 1 2 4, OF _ fullGroup_example
        zeroRun_example_first zeroRun_example_later _ longest first]
    by simp
  then show ?thesis by (simp add: eval_prim)
qed

text \<open>
  C7 as stated fails when the runs that share the maximal length are single groups: the
  first of them is not compressed.
\<close>

theorem compressIPv6Address_single_runs_counterexample:
  "zeroRun [''0001'', ''0000'', ''0002'', ''0000'', ''0003'', ''0004'', ''0005'', ''0006''] 1 1 \<and>
   zeroRun [''0001'', ''0000'', ''0002'', ''0000'', ''0003'', ''0004'', ''0005'', ''0006''] 3 1 \<and>
   longestZeroLength
     (zeroScanLoop [''0001'', ''0000'', ''0002'', ''0000'', ''0003'', ''0004'', ''0005'', ''0006'']
        0 zeroScanInit) = 1 \<and>
   compressIPv6Address ''0001:0000:0002:0000:0003:0004:0005:0006'' = ''1:0:2:0:3:4:5:6''"
proof -
  have "compressIPv6Address ''0001:0000:0002:0000:0003:0004:0005:0006'' = ''1:0:2:0:3:4:5:6''"
    unfolding eval_compress by (simp add: eval_prim)
  moreover have "longestZeroLength
     (zeroScanLoop [''0001'', ''0000'', ''0002'', ''0000'', ''0003'', ''0004'', ''0005'', ''0006'']
        0 zeroScanInit) = 1"
    by (simp add: eval_prim)
  ultimately show ?thesis by (simp add: zeroRun_def zerosAt_def)
qed

text \<open>
  C8. For every text that \<open>isValidIPv6Address\<close> accepts and every prefix length from 0 to
  128, \<open>calculateIPv6Subnet\<close> returns a result, whose total is \<open>1\<close> for the prefix length 128
  and otherwise \<open>2^\<close> followed by the radix 10 rendering of 128 minus the prefix length
  (its decimal numeral, by \<open>parseInt_numToString_decimal\<close>).
\<close>

theorem calculateIPv6Subnet_totalAddresses:
  assumes "isValidIPv6Address a" and "0 \<le> p" and "p \<le> 128"
  shows "\<exists>r. calculateIPv6Subnet a p = Some r \<and>
           totalAddresses r =
             (if p = 128 then ''1'' else ''2^'' @ numToString (Finite (128 - p)) 10)"
proof -
  obtain x where "expandIPv6Address a = Inr x" and "x \<noteq> []"
    using expandIPv6Address_of_valid [OF assms(1)] by blast
  then show ?thesis
    using assms(3) by (simp add: calculateIPv6Subnet_steps)
qed

theorem calculateIPv6Subnet_totalAddresses_witness:
  "(\<exists>r. calculateIPv6Subnet ''::1'' 64 = Some r \<and> totalAddresses r = ''2^64'') \<and>
   (\<exists>r. calculateIPv6Subnet ''::1'' 128 = Some r \<and> totalAddresses r = ''1'')"
proof -
  have d: "numToString (Finite (128 - 64)) 10 = ''64''"
    by (simp add: eval_prim)
  have "\<exists>r. calculateIPv6Subnet ''::1'' 64 = Some r \<and> totalAddresses r = ''2^64''"
    using calculateIPv6Subnet_totalAddresses [OF valid_loopback, of 64] d by simp
  moreover have "\<exists>r. calculateIPv6Subnet ''::1'' 128 = Some r \<and> totalAddresses r = ''1''"
    using calculateIPv6Subnet_totalAddresses [OF valid_loopback, of 128] by simp
  ultimately show ?thesis by simp
qed

text \<open>
  C9. Texts with three colons in a row are accepted: \<open>:::\<close> and \<open>1:::2\<close> each hold one
  match of \<open>::\<close> (the third colon is left over), and their empty segments pass the
  segment check.
\<close>

theorem isValidIPv6Address_stray_colons:
  "isValidIPv6Address '':::'' \<and> isValidIPv6Address ''1:::2'' \<and>
   matchDoubleColon '':::'' = 1 \<and> matchDoubleColon ''1:::2'' = 1 \<and>
   splitStr '':::'' '':'' = [[], [], [], []] \<and>
   splitStr ''1:::2'' '':'' = [''1'', [], [], ''2'']"
proof -
  have "isValidIPv6Address '':::''"
    unfolding eval_isValid by (simp add: eval_prim)
  moreover have "isValidIPv6Address ''1:::2''"
    unfolding eval_isValid by (simp add: eval_prim)
  ultimately show ?thesis by simp
qed

text \<open>
  C10. The CSV text of a result is four rows joined by line feeds, each row two cells joined
  by a comma: the header, then the network address, the last address and the total, with
  the fields of the result copied as they are.
\<close>

theorem generateIPv6CSV_rows:
  "generateIPv6CSV r =
     joinStr [joinStr [''Property'', ''Value''] '','',
              joinStr [''Network Address'', networkAddress r] '','',
              joinStr [''Last Address'', lastAddress r] '','',
              joinStr [''Total Addresses'', totalAddresses r] '',''] [CHR 0x0A] \<and>
   generateIPv6CSV r =
     ''Property,Value'' @ [CHR 0x0A] @
     ''Network Address,'' @ networkAddress r @ [CHR 0x0A] @
     ''Last Address,'' @ lastAddress r @ [CHR 0x0A] @
     ''Total Addresses,'' @ totalAddresses r"
  by (simp add: generateIPv6CSV_def)

end
